theory Spec2Isabelle
  imports Main "HOL-Library.AList"
begin

section \<open>The name-suggestion-index service (src/config/envs.mjs, second document)\<close>

text \<open>
  The service keeps a module-level cache \<open>_nsi\<close>, fills it once from downloaded files
  (\<open>loadNsiData\<close>) and then answers \<open>upgradeTags\<close> and \<open>isGenericName\<close> from it.
  The embedding follows the JavaScript statement by statement:
  \<^item> a tag object is an association list in \<open>Object.keys\<close> order: its own properties in
    insertion order (keys that are array indices, which JavaScript lists first, are left
    out). A read \<open>obj[key]\<close> with a computed key goes through \<open>plain_get\<close>, which also
    finds the properties every object inherits from \<open>Object.prototype\<close>; a read with
    one of the fixed keys of the source (\<open>name\<close>, \<open>route\<close>, \<open>office\<close>, ...) or
    with a key that has a colon cannot reach an inherited property and is \<open>obj_get\<close>;
  \<^item> a JavaScript \<open>Set\<close> of strings is a duplicate-free list in insertion order;
  \<^item> a \<open>Map\<close> is an association list, \<open>get\<close> is \<open>map_of\<close> and \<open>set\<close> is
    \<open>AList.update\<close> (an existing key keeps its place, a new key goes last);
  \<^item> \<open>undefined\<close> is \<open>None\<close>; a thrown exception is \<open>Inl\<close> of an \<open>error\<close>;
  \<^item> a string is a list of UTF-16 code units; \<open>char\<close> holds the code units 0 to 255
    (ASCII and Latin-1), on which white space, line terminators and case folding are
    those of JavaScript. Text with a code unit above 255 is outside the type.
\<close>

subsection \<open>JavaScript values and strings\<close>

datatype error = TypeError | SyntaxError

type_synonym tags = "(string \<times> string) list"

text \<open>Truthiness of a value that is a string or \<open>undefined\<close>.\<close>

fun truthy :: "string option \<Rightarrow> bool" where
  "truthy None = False"
| "truthy (Some s) = (s \<noteq> [])"

text \<open>A value used as a property key or inside a template literal.\<close>

fun key_of :: "string option \<Rightarrow> string" where
  "key_of None = ''undefined''"
| "key_of (Some s) = s"

text \<open>\<open>s.split(c)\<close> for a one-character separator, and \<open>s.split(c, n)\<close>.\<close>

fun split_on :: "char \<Rightarrow> string \<Rightarrow> string list" where
  "split_on c [] = [[]]"
| "split_on c (x # xs) =
     (if x = c then [] # split_on c xs
      else (case split_on c xs of [] \<Rightarrow> [[x]] | p # ps \<Rightarrow> (x # p) # ps))"

definition js_split :: "char \<Rightarrow> nat \<Rightarrow> string \<Rightarrow> string list" where
  "js_split c n s = take n (split_on c s)"

text \<open>\<open>parts[i]\<close>: \<open>undefined\<close> beyond the end of the array.\<close>

definition at_index :: "'a list \<Rightarrow> nat \<Rightarrow> 'a option" where
  "at_index xs i = (if i < length xs then Some (xs ! i) else None)"

fun is_prefix :: "string \<Rightarrow> string \<Rightarrow> bool" where
  "is_prefix [] s = True"
| "is_prefix (p # ps) [] = False"
| "is_prefix (p # ps) (c # cs) = (p = c \<and> is_prefix ps cs)"

text \<open>\<open>s.replace(pat, rep)\<close> with a string pattern: the first occurrence only.\<close>

fun js_replace :: "string \<Rightarrow> string \<Rightarrow> string \<Rightarrow> string" where
  "js_replace pat rep [] = (if pat = [] then rep else [])"
| "js_replace pat rep (c # cs) =
     (if is_prefix pat (c # cs) then rep @ drop (length pat) (c # cs)
      else c # js_replace pat rep cs)"

definition is_word :: "char \<Rightarrow> bool" where
  "is_word c =
     (let n = (of_char c :: nat)
      in (97 \<le> n \<and> n \<le> 122) \<or> (65 \<le> n \<and> n \<le> 90) \<or> (48 \<le> n \<and> n \<le> 57) \<or> n = 95)"

text \<open>
  \<open>\\s\<close> and the characters \<open>trim()\<close> removes: TAB, LF, VT, FF, CR, SPACE and U+00A0
  (the other white space of JavaScript lies above 255).
\<close>

definition is_space :: "char \<Rightarrow> bool" where
  "is_space c = (let n = (of_char c :: nat) in n = 32 \<or> (9 \<le> n \<and> n \<le> 13) \<or> n = 160)"

definition is_line_terminator :: "char \<Rightarrow> bool" where
  "is_line_terminator c = (let n = (of_char c :: nat) in n = 10 \<or> n = 13)"

text \<open>
  What a regular expression with the flag \<open>i\<close> compares: the upper case of a code unit
  when that is one code unit. \<open>a\<close> to \<open>z\<close> and U+00E0 to U+00FE without U+00F7 go 32
  down. U+00DF has a two-letter upper case and stays; the upper cases of U+00B5 and
  U+00FF lie above 255 and are the upper case of no other code unit below 256, so these
  two stand for themselves.
\<close>

definition canonicalize :: "char \<Rightarrow> char" where
  "canonicalize c =
     (let n = (of_char c :: nat)
      in if (97 \<le> n \<and> n \<le> 122) \<or> (224 \<le> n \<and> n \<le> 254 \<and> n \<noteq> 247)
         then char_of (n - 32) else c)"

definition js_trim :: "string \<Rightarrow> string" where
  "js_trim s = rev (dropWhile is_space (rev (dropWhile is_space s)))"

subsection \<open>Regular expressions of the source\<close>

text \<open>
  The regular-expression literals of the source are written as terms of \<open>rx\<close> and matched
  by derivatives (\<open>RWord\<close> is \<open>\\w\<close>, \<open>RSpace\<close> is \<open>\\s\<close>, \<open>RDot\<close> is \<open>.\<close>).
  \<open>rx_full\<close> is \<open>/^r$/.test\<close>, \<open>rx_prefix\<close> is \<open>/^r/.test\<close> and
  \<open>rx_suffix\<close> is \<open>/r$/.test\<close>; the flag says whether the literal carries \<open>i\<close>.
\<close>

datatype rx =
  RNone | REps | RChr char | RWord | RSpace | RDot | RSeq rx rx | RAlt rx rx | RStar rx

text \<open>The characters of \<open>n\<close>, each standing for itself, followed by \<open>r\<close>.\<close>

fun RLit :: "string \<Rightarrow> rx \<Rightarrow> rx" where
  "RLit [] r = r"
| "RLit (c # cs) r = RSeq (RChr c) (RLit cs r)"

definition RPlus :: "rx \<Rightarrow> rx" where
  "RPlus r = RSeq r (RStar r)"

definition ROpt :: "rx \<Rightarrow> rx" where
  "ROpt r = RAlt r REps"

fun RStr :: "string \<Rightarrow> rx" where
  "RStr [] = REps"
| "RStr (c # cs) = RSeq (RChr c) (RStr cs)"

fun RAlts :: "rx list \<Rightarrow> rx" where
  "RAlts [] = RNone"
| "RAlts (r # rs) = RAlt r (RAlts rs)"

fun nullable :: "rx \<Rightarrow> bool" where
  "nullable RNone = False"
| "nullable REps = True"
| "nullable (RChr c) = False"
| "nullable RWord = False"
| "nullable RSpace = False"
| "nullable RDot = False"
| "nullable (RSeq r s) = (nullable r \<and> nullable s)"
| "nullable (RAlt r s) = (nullable r \<or> nullable s)"
| "nullable (RStar r) = True"

fun deriv :: "bool \<Rightarrow> char \<Rightarrow> rx \<Rightarrow> rx" where
  "deriv i c RNone = RNone"
| "deriv i c REps = RNone"
| "deriv i c (RChr d) =
     (if (if i then canonicalize c = canonicalize d else c = d) then REps else RNone)"
| "deriv i c RWord = (if is_word c then REps else RNone)"
| "deriv i c RSpace = (if is_space c then REps else RNone)"
| "deriv i c RDot = (if is_line_terminator c then RNone else REps)"
| "deriv i c (RSeq r s) =
     (if nullable r then RAlt (RSeq (deriv i c r) s) (deriv i c s)
      else RSeq (deriv i c r) s)"
| "deriv i c (RAlt r s) = RAlt (deriv i c r) (deriv i c s)"
| "deriv i c (RStar r) = RSeq (deriv i c r) (RStar r)"

fun rx_full :: "bool \<Rightarrow> rx \<Rightarrow> string \<Rightarrow> bool" where
  "rx_full i r [] = nullable r"
| "rx_full i r (c # cs) = rx_full i (deriv i c r) cs"

fun rx_prefix :: "bool \<Rightarrow> rx \<Rightarrow> string \<Rightarrow> bool" where
  "rx_prefix i r [] = nullable r"
| "rx_prefix i r (c # cs) = (nullable r \<or> rx_prefix i (deriv i c r) cs)"

fun rx_suffix :: "bool \<Rightarrow> rx \<Rightarrow> string \<Rightarrow> bool" where
  "rx_suffix i r [] = nullable r"
| "rx_suffix i r (c # cs) = (rx_full i r (c # cs) \<or> rx_suffix i r cs)"

subsection \<open>Objects, sets and the store\<close>

text \<open>
  The properties of \<open>Object.prototype\<close>, which a plain object (an object literal or
  parsed JSON) inherits; the value of each is a function or an object, hence truthy and
  equal to no string.
\<close>

definition inherited :: "string list" where
  "inherited =
     [''constructor'', ''__defineGetter__'', ''__defineSetter__'', ''hasOwnProperty'',
      ''__lookupGetter__'', ''__lookupSetter__'', ''isPrototypeOf'',
      ''propertyIsEnumerable'', ''toString'', ''valueOf'', ''__proto__'',
      ''toLocaleString'']"

datatype 'a looked = Absent | Own 'a | Inherited

definition plain_get :: "(string \<times> 'a) list \<Rightarrow> string \<Rightarrow> 'a looked" where
  "plain_get obj k =
     (case map_of obj k of
        Some v \<Rightarrow> Own v
      | None \<Rightarrow> if k \<in> set inherited then Inherited else Absent)"

text \<open>Truthiness of what a tag object gives for a computed key.\<close>

fun truthy_looked :: "string looked \<Rightarrow> bool" where
  "truthy_looked Absent = False"
| "truthy_looked (Own s) = (s \<noteq> [])"
| "truthy_looked Inherited = True"

definition obj_get :: "tags \<Rightarrow> string \<Rightarrow> string option" where
  "obj_get obj k = map_of obj k"

definition obj_set :: "tags \<Rightarrow> string \<Rightarrow> string \<Rightarrow> tags" where
  "obj_set obj k v = AList.update k v obj"

definition obj_delete :: "tags \<Rightarrow> string \<Rightarrow> tags" where
  "obj_delete obj k = AList.delete k obj"

text \<open>\<open>Object.assign(target, src)\<close>: the source's properties in their order.\<close>

definition obj_assign :: "tags \<Rightarrow> tags \<Rightarrow> tags" where
  "obj_assign target src = fold (\<lambda>(k, v) t. obj_set t k v) src target"

definition set_add :: "string list \<Rightarrow> string \<Rightarrow> string list" where
  "set_add xs x = (if x \<in> set xs then xs else xs @ [x])"


text \<open>A \<open>forEach\<close> whose body may throw: the exception leaves the loop.\<close>

fun foldE :: "('a \<Rightarrow> 's \<Rightarrow> error + 's) \<Rightarrow> 'a list \<Rightarrow> 's \<Rightarrow> error + 's" where
  "foldE f [] s = Inr s"
| "foldE f (x # xs) s = (case f x s of Inl e \<Rightarrow> Inl e | Inr s' \<Rightarrow> foldE f xs s')"

subsection \<open>The data: dataset, cache and collaborators\<close>

record item =
  item_id :: string
  item_tags :: tags
  item_tkv :: "string option"
  item_mainTag :: "string option"
  item_preserveTags :: "string list option"

text \<open>
  A category \<open>{ items?, properties?: { preserveTags? } }\<close>; \<open>cat_properties\<close> is \<open>None\<close>
  without \<open>properties\<close> and \<open>Some None\<close> with \<open>properties\<close> but no \<open>preserveTags\<close>.
\<close>

record category =
  cat_items :: "item list option"
  cat_properties :: "string list option option"

text \<open>A field of a replacement entry: absent, a falsy marker, or a string.\<close>

datatype jsval = Undefined | Null | Str string

record replacement =
  rep_wikidata :: jsval
  rep_wikipedia :: jsval

record hit =
  hit_itemID :: string
  hit_match :: string

text \<open>
  The cache \<open>_nsi\<close>. Every property is optional, since the module starts with
  \<open>let _nsi = {}\<close>; \<open>nsi_dissolved\<close> lists the ids that are keys of the dissolved
  object (their values are arrays, hence truthy); \<open>nsi_trees\<close> maps a tree to its
  \<open>mainTag\<close>; the keys of \<open>nsi_kvt\<close> and of its value maps are results of
  \<open>split\<close> and may be \<open>undefined\<close>. The matcher of the name-suggestion-index package
  is a collaborator: \<open>nsi_matcher\<close> is its \<open>match(k, v, n, loc)\<close>.
\<close>

record 'l nsi =
  nsi_data :: "(string \<times> category) list option"
  nsi_dissolved :: "string list option"
  nsi_replacements :: "(string \<times> replacement) list option"
  nsi_trees :: "(string \<times> string) list option"
  nsi_kvt :: "(string option \<times> (string option \<times> string option) list) list option"
  nsi_qids :: "(string \<times> string) list option"
  nsi_ids :: "(string \<times> item) list option"
  nsi_matcher ::
    "(string option \<Rightarrow> string option \<Rightarrow> string \<Rightarrow> 'l option \<Rightarrow> hit list option) option"

text \<open>\<open>let _nsi = {}\<close>\<close>

definition nsi_init :: "'l nsi" where
  "nsi_init =
     \<lparr>nsi_data = None, nsi_dissolved = None, nsi_replacements = None, nsi_trees = None,
      nsi_kvt = None, nsi_qids = None, nsi_ids = None, nsi_matcher = None\<rparr>"

text \<open>
  What the module takes from outside: \<open>matchTags t\<close> is the id of
  \<open>presetManager.matchTags(t, 'area')\<close>, and \<open>regexp_i s\<close> is \<open>new RegExp(s, 'i')\<close> as
  its \<open>test\<close> function, \<open>None\<close> when the constructor throws.
\<close>

record env =
  matchTags :: "tags \<Rightarrow> string"
  regexp_i :: "string \<Rightarrow> (string \<Rightarrow> bool) option"

text \<open>
  The keys of \<open>buildingPreset\<close>. The id looked up in it comes from the preset
  collaborator, whose ids have the form \<open>key/value\<close> or \<open>key\<close> of a tag.
\<close>

definition buildingPreset :: "string list" where
  "buildingPreset =
     [''building/commercial'', ''building/government'', ''building/hotel'',
      ''building/retail'', ''building/office'', ''building/supermarket'', ''building/yes'']"

definition word_plus :: rx where
  "word_plus = RPlus RWord"

text \<open>\<open>/:(colou?r|type|forward|backward|left|right|etymology|pronunciation|wikipedia)$/i\<close>\<close>

definition notNames :: "string \<Rightarrow> bool" where
  "notNames =
     rx_suffix True
       (RSeq (RChr CHR '':'')
          (RAlts
             [RSeq (RStr ''colo'') (RSeq (ROpt (RChr CHR ''u'')) (RChr CHR ''r'')),
              RStr ''type'', RStr ''forward'', RStr ''backward'', RStr ''left'', RStr ''right'',
              RStr ''etymology'', RStr ''pronunciation'', RStr ''wikipedia'']))"

subsection \<open>Trivial Wikidata and Wikipedia replacements\<close>

text \<open>\<open>osmkey.match(/^(\\w+:)?wikidata$/)\<close>; its group 1 is the key without the last 8 characters.\<close>

definition wikidataKey :: "string \<Rightarrow> bool" where
  "wikidataKey =
     rx_full False (RSeq (ROpt (RSeq word_plus (RChr CHR '':''))) (RStr ''wikidata''))"

fun applyReplacement :: "jsval \<Rightarrow> string \<Rightarrow> tags \<times> bool \<Rightarrow> tags \<times> bool" where
  "applyReplacement Undefined key s = s"
| "applyReplacement Null key (newTags, changed) = (obj_delete newTags key, True)"
| "applyReplacement (Str w) key (newTags, changed) =
     (if w \<noteq> [] then obj_set newTags key w else obj_delete newTags key, True)"

definition replaceStep :: "'l nsi \<Rightarrow> string \<Rightarrow> tags \<times> bool \<Rightarrow> error + tags \<times> bool" where
  "replaceStep nsi osmkey s =
     (if wikidataKey osmkey then
        (let prefix = take (length osmkey - 8) osmkey;
             wd = obj_get (fst s) osmkey
         in case nsi_replacements nsi of
              None \<Rightarrow> Inl TypeError
            | Some reps \<Rightarrow>
                (case plain_get reps (key_of wd) of
                   Absent \<Rightarrow> Inr s
                 | Inherited \<Rightarrow> Inr s
                 | Own replace \<Rightarrow>
                     Inr (applyReplacement (rep_wikipedia replace) (prefix @ ''wikipedia'')
                            (applyReplacement (rep_wikidata replace) osmkey s))))
      else Inr s)"

subsection \<open>gatherKVs\<close>

record candidates =
  primary :: "string list"
  alternate :: "string list"

definition kvStep :: "'l nsi \<Rightarrow> tags \<Rightarrow> string \<Rightarrow> candidates \<Rightarrow> error + candidates" where
  "kvStep nsi tags osmkey acc =
     (let osmvalue = obj_get tags osmkey
      in if \<not> truthy osmvalue then Inr acc
         else (case nsi_kvt nsi of
                 None \<Rightarrow> Inl TypeError
               | Some kvt \<Rightarrow>
                   (case map_of kvt (Some osmkey) of
                      None \<Rightarrow> Inr acc
                    | Some vmap \<Rightarrow>
                        if osmvalue \<noteq> Some ''yes''
                        then Inr (acc\<lparr>primary :=
                                    set_add (primary acc) (osmkey @ ''/'' @ key_of osmvalue)\<rparr>)
                        else Inr (acc\<lparr>alternate :=
                                    set_add (alternate acc) (osmkey @ ''/'' @ key_of osmvalue)\<rparr>))))"

definition gatherKVs :: "'l nsi \<Rightarrow> env \<Rightarrow> tags \<Rightarrow> error + candidates" where
  "gatherKVs nsi ev tags =
     (case foldE (kvStep nsi tags) (map fst tags) \<lparr>primary = [], alternate = []\<rparr> of
        Inl e \<Rightarrow> Inl e
      | Inr acc \<Rightarrow>
          Inr (if matchTags ev tags \<in> set buildingPreset
               then acc\<lparr>alternate := set_add (alternate acc) ''building/yes''\<rparr>
               else acc))"

subsection \<open>gatherNames\<close>

datatype which = Primary | Alternate

text \<open>
  The three pattern tables. Only the alternate pattern of the last table has no \<open>$\<close>:
  it tests a prefix of the key.
\<close>

definition patterns :: "tags \<Rightarrow> which \<Rightarrow> string \<Rightarrow> bool" where
  "patterns tags =
     (if truthy (obj_get tags ''route'') then
        (\<lambda>w. case w of
           Primary \<Rightarrow> rx_full True (RStr ''network'')
         | Alternate \<Rightarrow>
             rx_full True
               (RAlts [RStr ''operator'', RSeq (RStr ''operator:'') word_plus,
                       RSeq (RStr ''network:'') word_plus, RSeq word_plus (RStr ''_name''),
                       RSeq word_plus (RSeq (RStr ''_name:'') word_plus)]))
      else if obj_get tags ''man_made'' = Some ''flagpole'' then
        (\<lambda>w. case w of
           Primary \<Rightarrow>
             rx_full True (RAlts [RStr ''flag:name'', RSeq (RStr ''flag:name:'') word_plus])
         | Alternate \<Rightarrow>
             rx_full True
               (RAlts [RStr ''flag'', RSeq (RStr ''flag:'') word_plus,
                       RStr ''subject'', RSeq (RStr ''subject:'') word_plus]))
      else
        (\<lambda>w. case w of
           Primary \<Rightarrow> rx_full True (RAlts [RStr ''name'', RSeq (RStr ''name:'') word_plus])
         | Alternate \<Rightarrow>
             rx_prefix True
               (RAlts [RStr ''brand'', RSeq (RStr ''brand:'') word_plus,
                       RStr ''operator'', RSeq (RStr ''operator:'') word_plus,
                       RSeq word_plus (RStr ''_name''),
                       RSeq word_plus (RSeq (RStr ''_name:'') word_plus)])))"

definition isNamelike :: "tags \<Rightarrow> string \<Rightarrow> which \<Rightarrow> bool" where
  "isNamelike tags osmkey w = (patterns tags w osmkey \<and> \<not> notNames osmkey)"

text \<open>\<open>/;/.test(osmvalue)\<close>\<close>

definition hasSemi :: "string \<Rightarrow> bool" where
  "hasSemi osmvalue = (CHR '';'' \<in> set osmvalue)"

text \<open>The loop state is \<open>(primary, alternate, foundSemi)\<close>.\<close>

definition nameStep ::
  "tags \<Rightarrow> string \<Rightarrow> string list \<times> string list \<times> bool \<Rightarrow> string list \<times> string list \<times> bool"
  where
  "nameStep tags osmkey acc =
     (case acc of (prim, alt, foundSemi) \<Rightarrow>
        (case obj_get tags osmkey of
           None \<Rightarrow> acc
         | Some osmvalue \<Rightarrow>
             if osmvalue = [] then acc
             else if isNamelike tags osmkey Primary then
               (if hasSemi osmvalue then (prim, alt, True)
                else (set_add prim osmvalue, alt, foundSemi))
             else if osmvalue \<notin> set prim \<and> isNamelike tags osmkey Alternate then
               (if hasSemi osmvalue then (prim, alt, True)
                else (prim, set_add alt osmvalue, foundSemi))
             else acc))"

definition countryFallback ::
  "tags \<Rightarrow> string list \<times> string list \<times> bool \<Rightarrow> string list \<times> string list \<times> bool" where
  "countryFallback tags acc =
     (case acc of (prim, alt, foundSemi) \<Rightarrow>
        if obj_get tags ''man_made'' = Some ''flagpole'' \<and> prim = [] \<and> alt = []
           \<and> truthy (obj_get tags ''country'')
        then (let osmvalue = key_of (obj_get tags ''country'')
              in if hasSemi osmvalue then (prim, alt, True)
                 else (prim, set_add alt osmvalue, foundSemi))
        else acc)"

definition gatherNames :: "tags \<Rightarrow> candidates" where
  "gatherNames tags =
     (case countryFallback tags (fold (nameStep tags) (map fst tags) ([], [], False)) of
        (prim, alt, foundSemi) \<Rightarrow>
          if foundSemi then \<lparr>primary = [], alternate = []\<rparr>
          else \<lparr>primary = prim, alternate = alt\<rparr>)"

subsection \<open>gatherTuples\<close>

record tuple =
  tuple_k :: "string option"
  tuple_v :: "string option"
  tuple_n :: string

definition pick :: "which \<Rightarrow> candidates \<Rightarrow> string list" where
  "pick w c = (case w of Primary \<Rightarrow> primary c | Alternate \<Rightarrow> alternate c)"

definition mkTuple :: "string \<Rightarrow> string \<Rightarrow> tuple" where
  "mkTuple kv n =
     (let parts = js_split CHR ''/'' 2 kv
      in \<lparr>tuple_k = at_index parts 0, tuple_v = at_index parts 1, tuple_n = n\<rparr>)"

definition gatherTuples :: "candidates \<Rightarrow> candidates \<Rightarrow> tuple list" where
  "gatherTuples tryKVs tryNames =
     fold (\<lambda>whichName tuples.
        fold (\<lambda>n tuples.
          fold (\<lambda>whichKV tuples.
            fold (\<lambda>kv tuples. tuples @ [mkTuple kv n]) (pick whichKV tryKVs) tuples)
            [Primary, Alternate] tuples)
          (pick whichName tryNames) tuples)
       [Primary, Alternate] []"


subsection \<open>Choosing the item of a match\<close>

text \<open>\<open>itemQID === notQID\<close>, where \<open>notQID\<close> is a string or \<open>undefined\<close>.\<close>

fun strict_eq :: "string looked \<Rightarrow> string option \<Rightarrow> bool" where
  "strict_eq (Own s) (Some t) = (s = t)"
| "strict_eq Absent None = True"
| "strict_eq q n = False"

text \<open>
  The inner loop over the hits of one tuple. \<open>item\<close> is the loop's variable of that
  name: a dissolved hit leaves it as it is, an unknown id or an exception clears it.
  \<open>_nsi.dissolved[itemID]\<close> is a read of a plain object: it is truthy for the ids the
  object lists and for the inherited property names.
\<close>

fun hitsLoop :: "'l nsi \<Rightarrow> tags \<Rightarrow> hit list \<Rightarrow> item option \<Rightarrow> error + item option" where
  "hitsLoop nsi newTags [] item = Inr item"
| "hitsLoop nsi newTags (hit # hits) item =
     (case nsi_dissolved nsi of
        None \<Rightarrow> Inl TypeError
      | Some dissolved \<Rightarrow>
          if hit_itemID hit \<in> set dissolved \<or> hit_itemID hit \<in> set inherited
          then hitsLoop nsi newTags hits item
          else (case nsi_ids nsi of
                  None \<Rightarrow> Inl TypeError
                | Some ids \<Rightarrow>
                    (case map_of ids (hit_itemID hit) of
                       None \<Rightarrow> hitsLoop nsi newTags hits None
                     | Some it \<Rightarrow>
                         (let mainTag = item_mainTag it;
                              itemQID = plain_get (item_tags it) (key_of mainTag);
                              notQID = obj_get newTags (''not:'' @ key_of mainTag)
                          in if (\<not> truthy_looked itemQID \<or> strict_eq itemQID notQID)
                                \<or> (truthy (obj_get newTags ''office'')
                                    \<and> \<not> truthy (obj_get (item_tags it) ''office''))
                             then hitsLoop nsi newTags hits None
                             else Inr (Some it)))))"

text \<open>The outer loop, up to the point where an item is in hand.\<close>

fun tuplesLoop :: "'l nsi \<Rightarrow> tags \<Rightarrow> 'l option \<Rightarrow> tuple list \<Rightarrow> error + item option" where
  "tuplesLoop nsi newTags loc [] = Inr None"
| "tuplesLoop nsi newTags loc (tuple # tuples) =
     (case nsi_matcher nsi of
        None \<Rightarrow> Inl TypeError
      | Some m \<Rightarrow>
          (case m (tuple_k tuple) (tuple_v tuple) (tuple_n tuple) loc of
             None \<Rightarrow> tuplesLoop nsi newTags loc tuples
           | Some [] \<Rightarrow> tuplesLoop nsi newTags loc tuples
           | Some (hit0 # rest) \<Rightarrow>
               if hit_match hit0 \<noteq> ''primary'' \<and> hit_match hit0 \<noteq> ''alternate''
               then tuplesLoop nsi newTags loc tuples
               else (case hitsLoop nsi newTags (hit0 # rest) None of
                       Inl e \<Rightarrow> Inl e
                     | Inr None \<Rightarrow> tuplesLoop nsi newTags loc tuples
                     | Inr (Some it) \<Rightarrow> Inr (Some it))))"

subsection \<open>Merging the item's tags\<close>

text \<open>\<open>_nsi.qids.get(tags.wikidata) || _nsi.qids.get(tags.wikipedia)\<close>\<close>

definition qidsGet :: "(string \<times> string) list \<Rightarrow> string option \<Rightarrow> string option" where
  "qidsGet qids key = (case key of None \<Rightarrow> None | Some s \<Rightarrow> map_of qids s)"

definition findQID :: "'l nsi \<Rightarrow> tags \<Rightarrow> error + string option" where
  "findQID nsi tags =
     (case nsi_qids nsi of
        None \<Rightarrow> Inl TypeError
      | Some qids \<Rightarrow>
          (let wd = qidsGet qids (obj_get tags ''wikidata'')
           in Inr (if truthy wd then wd else qidsGet qids (obj_get tags ''wikipedia''))))"

text \<open>\<open>if (foundQID) tryNames.primary.add(foundQID)\<close>\<close>

definition withQID :: "candidates \<Rightarrow> string option \<Rightarrow> candidates" where
  "withQID tryNames foundQID =
     (if truthy foundQID
      then tryNames\<lparr>primary := set_add (primary tryNames) (key_of foundQID)\<rparr>
      else tryNames)"

definition keepTagsOf :: "(string \<Rightarrow> bool) list \<Rightarrow> tags \<Rightarrow> tags" where
  "keepTagsOf regexes newTags =
     fold (\<lambda>osmkey keepTags.
             if list_ex (\<lambda>regex. regex osmkey) regexes
             then (case obj_get newTags osmkey of
                     None \<Rightarrow> keepTags
                   | Some v \<Rightarrow> obj_set keepTags osmkey v)
             else keepTags)
       (map fst newTags) []"

text \<open>
  \<open>category = _nsi.data[tkv]\<close> and then \<open>category.properties\<close>: \<open>None\<close> when the read
  of \<open>properties\<close> throws because there is no category; an inherited member of
  \<open>_nsi.data\<close> is an object without \<open>properties\<close>.
\<close>

definition categoryProperties ::
  "(string \<times> category) list \<Rightarrow> string \<Rightarrow> string list option option option" where
  "categoryProperties data tkv =
     (case plain_get data tkv of
        Absent \<Rightarrow> None
      | Own category \<Rightarrow> Some (cat_properties category)
      | Inherited \<Rightarrow> Some None)"

definition mergeItem ::
  "'l nsi \<Rightarrow> env \<Rightarrow> item \<Rightarrow> string option \<Rightarrow> tags \<Rightarrow> error + tags" where
  "mergeItem nsi ev it foundQID newTags =
     (case nsi_data nsi of
        None \<Rightarrow> Inl TypeError
      | Some data \<Rightarrow>
          (case categoryProperties data (key_of (item_tkv it)) of
             None \<Rightarrow> Inl TypeError
           | Some properties \<Rightarrow>
               (let preserveTags =
                      (case item_preserveTags it of
                         Some ps \<Rightarrow> ps
                       | None \<Rightarrow> (case properties of Some (Some ps) \<Rightarrow> ps | _ \<Rightarrow> []))
                in case those (map (regexp_i ev) preserveTags) of
                     None \<Rightarrow> Inl SyntaxError
                   | Some compiled \<Rightarrow>
                       (let regexes =
                              compiled @ [rx_full True (RStr ''building''),
                                          rx_full True (RStr ''takeaway'')];
                            keepTags = keepTagsOf regexes newTags
                        in case nsi_kvt nsi of
                             None \<Rightarrow> Inl TypeError
                           | Some kvt \<Rightarrow>
                               (let newTags1 =
                                      fold (\<lambda>(k, v) t. obj_delete t (key_of k)) kvt newTags;
                                    newTags2 =
                                      (if truthy foundQID
                                       then obj_delete (obj_delete newTags1 ''wikipedia'')
                                              ''wikidata''
                                       else newTags1)
                                in Inr (obj_assign (obj_assign newTags2 (item_tags it))
                                          keepTags))))))"

subsection \<open>The branch splitting rule\<close>

text \<open>
  \<open>origName.match(new RegExp(`^${escapeRegex(n)}\\s(.+)$`, 'i'))\<close>: \<open>escapeRegex\<close> puts
  a backslash before every character that has a meaning in a regular expression, so each
  character of \<open>n\<close> stands for itself (\<open>RLit n\<close>). The match spans the whole of
  \<open>origName\<close>, so group 1 is what follows the first \<open>length n + 1\<close> characters.
\<close>

definition branchMatch :: "string \<Rightarrow> string \<Rightarrow> string option" where
  "branchMatch n origName =
     (if rx_full True (RLit n (RSeq RSpace (RPlus RDot))) origName
      then Some (drop (length n + 1) origName)
      else None)"

fun findBranch :: "string list \<Rightarrow> string \<Rightarrow> string option" where
  "findBranch [] origName = None"
| "findBranch (n # candidates) origName =
     (case branchMatch n origName of
        None \<Rightarrow> findBranch candidates origName
      | Some captured \<Rightarrow>
          if js_trim captured \<noteq> [] then Some captured
          else findBranch candidates origName)"

text \<open>\<open>new Set([...newNames.primary, ...newNames.alternate])\<close>\<close>

definition newSetOf :: "candidates \<Rightarrow> string list" where
  "newSetOf newNames = fold (\<lambda>x s. set_add s x) (primary newNames @ alternate newNames) []"

text \<open>\<open>Array.from(newSet).sort((a, b) => b.length - a.length)\<close>; the sort is stable.\<close>

definition sortLongestFirst :: "string list \<Rightarrow> string list" where
  "sortLongestFirst xs = sort_key (\<lambda>a. - int (length a)) xs"

definition splitBranch :: "tags \<Rightarrow> string option \<Rightarrow> tags" where
  "splitBranch newTags origName =
     (let newName = obj_get newTags ''name''
      in if truthy newName \<and> truthy origName \<and> newName \<noteq> origName
            \<and> \<not> truthy (obj_get newTags ''branch'')
         then (let newSet = newSetOf (gatherNames newTags);
                   isMoved = (key_of origName \<in> set newSet)
               in if \<not> isMoved
                  then (case findBranch (sortLongestFirst newSet) (key_of origName) of
                          None \<Rightarrow> newTags
                        | Some captured \<Rightarrow> obj_set newTags ''branch'' captured)
                  else newTags)
         else newTags)"

subsection \<open>upgradeTags\<close>

text \<open>
  The store holds the tag objects; a reference is an index into it. \<open>tags\<close> is the
  caller's object, \<open>newTags\<close> the one that \<open>Object.assign({}, tags)\<close> allocates. Every
  read of \<open>tags\<close> is a read of the store as it is at that statement, and every assignment
  and \<open>delete\<close> on \<open>newTags\<close> is a write at its index. The result is the final store and
  the returned reference (\<open>None\<close> for \<open>null\<close>) or the exception. After an exception the
  copy is unreachable; the store then shows it as of the last completed stage.
\<close>

type_synonym store = "tags list"

definition upgradeTags ::
  "'l nsi \<Rightarrow> env \<Rightarrow> store \<Rightarrow> nat \<Rightarrow> 'l option \<Rightarrow> store \<times> (error + nat option)" where
  "upgradeTags nsi ev h tags loc =
     (if \<not> tags < length h then (h @ [[]], Inl TypeError)
      else
       (let newTags = length h;
            h0 = h @ [obj_assign [] (h ! tags)]
        in case foldE (replaceStep nsi) (map fst (h0 ! newTags)) (h0 ! newTags, False) of
             Inl e \<Rightarrow> (h0, Inl e)
           | Inr (replaced, changed) \<Rightarrow>
               (let h1 = h0[newTags := replaced];
                    noMatch = (if changed then Some newTags else None)
                in case gatherKVs nsi ev (h1 ! tags) of
                     Inl e \<Rightarrow> (h1, Inl e)
                   | Inr tryKVs \<Rightarrow>
                       if primary tryKVs = [] \<and> alternate tryKVs = [] then (h1, Inr noMatch)
                       else
                        (let gathered = gatherNames (h1 ! tags)
                         in case findQID nsi (h1 ! tags) of
                              Inl e \<Rightarrow> (h1, Inl e)
                            | Inr foundQID \<Rightarrow>
                                (let tryNames = withQID gathered foundQID
                                 in if primary tryNames = [] \<and> alternate tryNames = []
                                    then (h1, Inr noMatch)
                                    else
                                     (case tuplesLoop nsi (h1 ! newTags) loc
                                             (gatherTuples tryKVs tryNames) of
                                        Inl e \<Rightarrow> (h1, Inl e)
                                      | Inr None \<Rightarrow> (h1, Inr noMatch)
                                      | Inr (Some it) \<Rightarrow>
                                          (case mergeItem nsi ev it foundQID (h1 ! newTags) of
                                             Inl e \<Rightarrow> (h1, Inl e)
                                           | Inr merged \<Rightarrow>
                                               (let h2 = h1[newTags := merged];
                                                    origName = obj_get (h2 ! tags) ''name'';
                                                    h3 = h2[newTags :=
                                                           splitBranch (h2 ! newTags) origName]
                                                in (h3, Inr (Some newTags))))))))))"

subsection \<open>isGenericName\<close>

fun genericLoop :: "'l nsi \<Rightarrow> tuple list \<Rightarrow> error + bool" where
  "genericLoop nsi [] = Inr False"
| "genericLoop nsi (tuple # tuples) =
     (case nsi_matcher nsi of
        None \<Rightarrow> Inl TypeError
      | Some m \<Rightarrow>
          (case m (tuple_k tuple) (tuple_v tuple) (tuple_n tuple) None of
             None \<Rightarrow> genericLoop nsi tuples
           | Some [] \<Rightarrow> genericLoop nsi tuples
           | Some (hit0 # rest) \<Rightarrow>
               if hit_match hit0 = ''excludeGeneric'' then Inr True
               else genericLoop nsi tuples))"

definition isGenericName :: "'l nsi \<Rightarrow> env \<Rightarrow> tags \<Rightarrow> error + bool" where
  "isGenericName nsi ev tags =
     (let n = obj_get tags ''name''
      in if \<not> truthy n then Inr False
         else
          (let tryNames = \<lparr>primary = [key_of n], alternate = []\<rparr>
           in case gatherKVs nsi ev tags of
                Inl e \<Rightarrow> Inl e
              | Inr tryKVs \<Rightarrow>
                  if primary tryKVs = [] \<and> alternate tryKVs = [] then Inr False
                  else genericLoop nsi (gatherTuples tryKVs tryNames)))"

subsection \<open>loadNsiData\<close>

text \<open>
  The callback that runs once the four files have arrived. The loop state is
  \<open>(data, kvt, qids, ids)\<close>: the callback writes \<open>tkv\<close> and \<open>mainTag\<close> into the items
  of the dataset, which are the objects it caches in \<open>ids\<close>. \<open>m\<close> is the matcher after
  \<open>buildMatchIndex\<close> and \<open>buildLocationIndex\<close>.
\<close>

type_synonym indices =
  "(string \<times> category) list
   \<times> (string option \<times> (string option \<times> string option) list) list
   \<times> (string \<times> string) list \<times> (string \<times> item) list"

definition annotate :: "string \<Rightarrow> string option \<Rightarrow> item \<Rightarrow> item" where
  "annotate tkv mainTag it = it\<lparr>item_tkv := Some tkv, item_mainTag := mainTag\<rparr>"

text \<open>
  \<open>qids\<close> is shown as far as strings can look it up. A \<open>wd\<close> that is an inherited member
  of \<open>item.tags\<close> is truthy but not a string: the entry \<open>qids.set(wd, wd)\<close> has a key no
  tag value equals. Then \<open>mainTag\<close> is an inherited name; none of these contains
  \<open>wikidata\<close>, so \<open>wp\<close> is the same read and \<open>qids.set(wp, wd)\<close> has such a key too.
  Without a \<open>mainTag\<close> the call \<open>mainTag.replace\<close> throws.
\<close>

definition itemStep ::
  "string \<Rightarrow> string option \<Rightarrow> item \<Rightarrow> (string \<times> string) list \<times> (string \<times> item) list
     \<Rightarrow> error + (string \<times> string) list \<times> (string \<times> item) list" where
  "itemStep tkv mainTag it acc =
     (case acc of (qids, ids) \<Rightarrow>
        (let ids1 = AList.update (item_id it) (annotate tkv mainTag it) ids;
             wd = plain_get (item_tags it) (key_of mainTag)
         in case mainTag of
              None \<Rightarrow> Inl TypeError
            | Some mt \<Rightarrow>
                (let wp = plain_get (item_tags it) (js_replace ''wikidata'' ''wikipedia'' mt);
                     qids1 = (case wd of
                                Own d \<Rightarrow> if d \<noteq> [] then AList.update d d qids else qids
                              | _ \<Rightarrow> qids);
                     qids2 = (case (wp, wd) of
                                (Own p, Own d) \<Rightarrow>
                                  if p \<noteq> [] \<and> d \<noteq> [] then AList.update p d qids1 else qids1
                              | _ \<Rightarrow> qids1)
                 in Inr (qids2, ids1))))"

text \<open>
  \<open>tree = _nsi.trees[t]\<close> and then \<open>tree.mainTag\<close>: \<open>None\<close> when the read of
  \<open>mainTag\<close> throws because there is no tree; an inherited member of \<open>_nsi.trees\<close> is an
  object without \<open>mainTag\<close>.
\<close>

definition treeMainTag :: "(string \<times> string) list \<Rightarrow> string \<Rightarrow> string option option" where
  "treeMainTag trees t =
     (case plain_get trees t of
        Absent \<Rightarrow> None
      | Own mainTag \<Rightarrow> Some (Some mainTag)
      | Inherited \<Rightarrow> Some None)"

definition tkvStep :: "(string \<times> string) list \<Rightarrow> string \<Rightarrow> indices \<Rightarrow> error + indices" where
  "tkvStep trees tkv acc =
     (case acc of (data, kvt, qids, ids) \<Rightarrow>
        (case map_of data tkv of
           None \<Rightarrow> Inl TypeError
         | Some category \<Rightarrow>
             (let parts = js_split CHR ''/'' 3 tkv;
                  t = at_index parts 0;
                  k = at_index parts 1;
                  v = at_index parts 2;
                  vmap = (case map_of kvt k of None \<Rightarrow> [] | Some existing \<Rightarrow> existing);
                  kvt1 = AList.update k (AList.update v t vmap) kvt
              in case treeMainTag trees (key_of t) of
                   None \<Rightarrow> Inl TypeError
                 | Some mainTag \<Rightarrow>
                     (let items = (case cat_items category of None \<Rightarrow> [] | Some is \<Rightarrow> is);
                          data1 =
                            AList.update tkv
                              (category\<lparr>cat_items :=
                                 map_option (map (annotate tkv mainTag)) (cat_items category)\<rparr>)
                              data
                      in case foldE (itemStep tkv mainTag) items (qids, ids) of
                           Inl e \<Rightarrow> Inl e
                         | Inr (qids1, ids1) \<Rightarrow> Inr (data1, kvt1, qids1, ids1)))))"

definition loadNsiData ::
  "(string \<times> category) list \<Rightarrow> string list \<Rightarrow> (string \<times> replacement) list
     \<Rightarrow> (string \<times> string) list
     \<Rightarrow> (string option \<Rightarrow> string option \<Rightarrow> string \<Rightarrow> 'l option \<Rightarrow> hit list option)
     \<Rightarrow> error + 'l nsi" where
  "loadNsiData data dissolved replacements trees m =
     (case foldE (tkvStep trees) (map fst data) (data, [], [], []) of
        Inl e \<Rightarrow> Inl e
      | Inr (data1, kvt, qids, ids) \<Rightarrow>
          Inr \<lparr>nsi_data = Some data1, nsi_dissolved = Some dissolved,
               nsi_replacements = Some replacements, nsi_trees = Some trees,
               nsi_kvt = Some kvt, nsi_qids = Some qids, nsi_ids = Some ids,
               nsi_matcher = Some m\<rparr>)"

subsection \<open>Auxiliary notions for the properties\<close>

text \<open>The tuples of one name: its primary pairs, then its alternate pairs.\<close>

definition tuplesFor :: "candidates \<Rightarrow> string \<Rightarrow> tuple list" where
  "tuplesFor tryKVs n =
     map (\<lambda>kv. mkTuple kv n) (primary tryKVs) @ map (\<lambda>kv. mkTuple kv n) (alternate tryKVs)"

text \<open>
  What \<open>gatherKVs\<close> collects from the keys \<open>ks\<close> of \<open>tags\<close>: the pairs \<open>key/value\<close>
  whose value is not empty and whose key is a key of \<open>kvt\<close>, split by the value \<open>yes\<close>.
\<close>

definition kvPrimary ::
  "(string option \<times> (string option \<times> string option) list) list \<Rightarrow> tags \<Rightarrow> string set
     \<Rightarrow> string set" where
  "kvPrimary kvt tags ks =
     {k @ ''/'' @ v | k v. k \<in> ks \<and> map_of tags k = Some v \<and> v \<noteq> [] \<and> v \<noteq> ''yes''
                          \<and> map_of kvt (Some k) \<noteq> None}"

definition kvAlternate ::
  "(string option \<times> (string option \<times> string option) list) list \<Rightarrow> tags \<Rightarrow> string set
     \<Rightarrow> string set" where
  "kvAlternate kvt tags ks =
     {k @ ''/yes'' | k. k \<in> ks \<and> map_of tags k = Some ''yes'' \<and> map_of kvt (Some k) \<noteq> None}"

text \<open>A cache whose only category is \<open>brands/amenity/restaurant\<close>, and a bare environment.\<close>

definition cafe_kvt :: "(string option \<times> (string option \<times> string option) list) list" where
  "cafe_kvt = [(Some ''amenity'', [(Some ''restaurant'', Some ''brands'')])]"

definition cafe_nsi :: "unit nsi" where
  "cafe_nsi = nsi_init\<lparr>nsi_kvt := Some cafe_kvt\<rparr>"

definition plain_env :: env where
  "plain_env = \<lparr>matchTags = (\<lambda>t. ''point''), regexp_i = (\<lambda>s. None)\<rparr>"

text \<open>
  The hit that 4b asks for, in the words of the specification: the item is not dissolved,
  it is a known item, it has a non-empty value for its \<open>mainTag\<close>, that value is not the
  feature's \<open>not:<mainTag>\<close> value, and it is not so that the feature has an \<open>office\<close>
  value while the item has none. \<open>selected\<close> is the item of the first such hit.
\<close>

definition qualifies :: "string list \<Rightarrow> (string \<times> item) list \<Rightarrow> tags \<Rightarrow> hit \<Rightarrow> bool" where
  "qualifies dissolved ids newTags hit =
     (hit_itemID hit \<notin> set dissolved
      \<and> (case map_of ids (hit_itemID hit) of
            None \<Rightarrow> False
          | Some it \<Rightarrow>
              truthy_looked (plain_get (item_tags it) (key_of (item_mainTag it)))
              \<and> \<not> strict_eq (plain_get (item_tags it) (key_of (item_mainTag it)))
                     (obj_get newTags (''not:'' @ key_of (item_mainTag it)))
              \<and> \<not> (truthy (obj_get newTags ''office'')
                     \<and> \<not> truthy (obj_get (item_tags it) ''office''))))"

definition selected ::
  "string list \<Rightarrow> (string \<times> item) list \<Rightarrow> tags \<Rightarrow> hit list \<Rightarrow> item option" where
  "selected dissolved ids newTags hits =
     (case find (qualifies dissolved ids newTags) hits of
        None \<Rightarrow> None
      | Some hit \<Rightarrow> map_of ids (hit_itemID hit))"

text \<open>
  A dataset with one category \<open>brands/shop/convenience\<close>: a dissolved item and the brand
  Acme. Its matcher answers for the names \<open>Acme Riverside\<close> and \<open>Q1\<close> with the
  dissolved item first.
\<close>

definition old_item :: item where
  "old_item =
     \<lparr>item_id = ''old-0'',
      item_tags = [(''brand'', ''Old''), (''brand:wikidata'', ''Q0''), (''name'', ''Old''),
                   (''shop'', ''convenience'')],
      item_tkv = None, item_mainTag = None, item_preserveTags = None\<rparr>"

definition acme_item :: item where
  "acme_item =
     \<lparr>item_id = ''acme-1'',
      item_tags = [(''brand'', ''Acme''), (''brand:wikidata'', ''Q1''),
                   (''brand:wikipedia'', ''en:Acme''), (''name'', ''Acme''),
                   (''shop'', ''convenience'')],
      item_tkv = None, item_mainTag = None, item_preserveTags = None\<rparr>"

definition acme_data :: "(string \<times> category) list" where
  "acme_data =
     [(''brands/shop/convenience'',
       \<lparr>cat_items = Some [old_item, acme_item], cat_properties = None\<rparr>)]"

definition acme_hits :: "hit list" where
  "acme_hits =
     [\<lparr>hit_itemID = ''old-0'', hit_match = ''primary''\<rparr>,
      \<lparr>hit_itemID = ''acme-1'', hit_match = ''primary''\<rparr>]"

definition acme_match ::
  "string option \<Rightarrow> string option \<Rightarrow> string \<Rightarrow> unit option \<Rightarrow> hit list option" where
  "acme_match k v n loc =
     (if k = Some ''shop'' \<and> v = Some ''convenience'' \<and> (n = ''Acme Riverside'' \<or> n = ''Q1'')
      then Some acme_hits else None)"

definition acme_trees :: "(string \<times> string) list" where
  "acme_trees = [(''brands'', ''brand:wikidata'')]"

definition acme_nsi :: "unit nsi" where
  "acme_nsi =
     (case loadNsiData acme_data [''old-0''] [] acme_trees acme_match of
        Inl e \<Rightarrow> nsi_init
      | Inr nsi \<Rightarrow> nsi)"

definition acme_cached :: item where
  "acme_cached = annotate ''brands/shop/convenience'' (Some ''brand:wikidata'') acme_item"

definition old_cached :: item where
  "old_cached = annotate ''brands/shop/convenience'' (Some ''brand:wikidata'') old_item"

definition acme_loaded :: "(string \<times> category) list" where
  "acme_loaded =
     [(''brands/shop/convenience'',
       \<lparr>cat_items = Some [old_cached, acme_cached], cat_properties = None\<rparr>)]"

definition riverside :: tags where
  "riverside = [(''shop'', ''convenience''), (''name'', ''Acme Riverside'')]"

text \<open>
  A candidate that the branch rule accepts: the pattern matches and what it captures is
  not blank.
\<close>

definition nonblankMatch :: "string \<Rightarrow> string \<Rightarrow> bool" where
  "nonblankMatch origName n =
     (case branchMatch n origName of None \<Rightarrow> False | Some captured \<Rightarrow> js_trim captured \<noteq> [])"

text \<open>
  The candidate loop in the words of the specification: "on the first match, set branch to
  the captured remainder and stop".
\<close>

fun firstMatch :: "string list \<Rightarrow> string \<Rightarrow> string option" where
  "firstMatch [] origName = None"
| "firstMatch (n # candidates) origName =
     (case branchMatch n origName of
        None \<Rightarrow> firstMatch candidates origName
      | Some captured \<Rightarrow> Some captured)"

text \<open>The Acme tags merged into the feature \<open>riverside\<close>, and a merged result with two names.\<close>

definition acme_merged :: tags where
  "acme_merged =
     [(''name'', ''Acme''), (''brand'', ''Acme''), (''brand:wikidata'', ''Q1''),
      (''brand:wikipedia'', ''en:Acme''), (''shop'', ''convenience'')]"

definition two_names :: tags where
  "two_names = [(''name'', ''Acme Riverside''), (''brand'', ''Acme'')]"

text \<open>The feature \<open>{ shop: "supermarket", name: "A;B" }\<close>.\<close>

definition semi_tags :: tags where
  "semi_tags = [(''shop'', ''supermarket''), (''name'', ''A;B'')]"

definition no_candidates :: candidates where
  "no_candidates = \<lparr>primary = [], alternate = []\<rparr>"

text \<open>
  The inputs on which \<open>upgradeTags\<close> reaches a property of the cache: a key of the form
  \<open>[prefix:]wikidata\<close>, a value that is not empty, or a generic building preset.
\<close>

definition touchesCache :: "env \<Rightarrow> tags \<Rightarrow> bool" where
  "touchesCache ev tags =
     (list_ex wikidataKey (map fst tags)
      \<or> list_ex (\<lambda>osmkey. truthy (obj_get tags osmkey)) (map fst tags)
      \<or> matchTags ev tags \<in> set buildingPreset)"

text \<open>The tree that a key of the dataset names: the part before its first \<open>/\<close>.\<close>

definition treeOf :: "string \<Rightarrow> string" where
  "treeOf tkv = key_of (at_index (js_split CHR ''/'' 3 tkv) 0)"

text \<open>A dataset whose only key has two parts.\<close>

definition short_data :: "(string \<times> category) list" where
  "short_data = [(''brands/amenity'', \<lparr>cat_items = None, cat_properties = None\<rparr>)]"

text \<open>
  The preserve patterns that apply to an item (its own, else its category's), and whether
  one of them matches a key.
\<close>

definition preserveTagsOf :: "'l nsi \<Rightarrow> item \<Rightarrow> string list" where
  "preserveTagsOf nsi it =
     (case item_preserveTags it of
        Some ps \<Rightarrow> ps
      | None \<Rightarrow>
          (case nsi_data nsi of
             None \<Rightarrow> []
           | Some data \<Rightarrow>
               (case categoryProperties data (key_of (item_tkv it)) of
                  Some (Some (Some ps)) \<Rightarrow> ps
                | _ \<Rightarrow> [])))"

definition preserved :: "'l nsi \<Rightarrow> env \<Rightarrow> item \<Rightarrow> string \<Rightarrow> bool" where
  "preserved nsi ev it osmkey =
     list_ex (\<lambda>s. case regexp_i ev s of None \<Rightarrow> False | Some regex \<Rightarrow> regex osmkey)
       (preserveTagsOf nsi it)"

text \<open>
  A feature known by its \<open>wikidata\<close> tag only, and a dataset like the Acme one whose item
  asks to preserve \<open>^wikidata$\<close>.
\<close>

definition qid_only :: tags where
  "qid_only = [(''shop'', ''convenience''), (''wikidata'', ''Q1'')]"

definition keeper_item :: item where
  "keeper_item = acme_item\<lparr>item_preserveTags := Some [''^wikidata$'']\<rparr>"

definition keeper_data :: "(string \<times> category) list" where
  "keeper_data =
     [(''brands/shop/convenience'',
       \<lparr>cat_items = Some [keeper_item], cat_properties = None\<rparr>)]"

definition keeper_nsi :: "unit nsi" where
  "keeper_nsi =
     (case loadNsiData keeper_data [] [] acme_trees acme_match of
        Inl e \<Rightarrow> nsi_init
      | Inr nsi \<Rightarrow> nsi)"

definition keeper_env :: env where
  "keeper_env =
     \<lparr>matchTags = (\<lambda>t. ''point''),
      regexp_i = (\<lambda>s. if s = ''^wikidata$'' then Some (rx_full True (RStr ''wikidata''))
                       else None)\<rparr>"







text \<open>
  The pattern \<open>^<n>\\s(.+)$\<close> with the flag \<open>i\<close>, said without the matcher:
  \<open>origName\<close> is a copy of \<open>n\<close> up to case, one white space character, and a
  remainder that is not empty and has no line terminator; the remainder is what group 1
  captures. A remainder is blank when \<open>trim()\<close> leaves nothing of it.
\<close>

definition captures :: "string \<Rightarrow> string \<Rightarrow> string \<Rightarrow> bool" where
  "captures origName n rest =
     (\<exists>p sp. origName = p @ sp # rest \<and> map canonicalize p = map canonicalize n
             \<and> is_space sp \<and> rest \<noteq> [] \<and> (\<forall>c \<in> set rest. \<not> is_line_terminator c))"

definition blank :: "string \<Rightarrow> bool" where
  "blank rest = (\<forall>c \<in> set rest. is_space c)"

definition splits :: "string \<Rightarrow> string \<Rightarrow> bool" where
  "splits origName n = (\<exists>rest. captures origName n rest \<and> \<not> blank rest)"

text \<open>
  An item named \<open>Acme Riverside\<close> of the brand \<open>Acme\<close>, and a feature whose name is
  that name followed by two spaces.
\<close>

definition twin_item :: item where
  "twin_item =
     \<lparr>item_id = ''twin-1'',
      item_tags = [(''brand'', ''Acme''), (''brand:wikidata'', ''Q1''),
                   (''name'', ''Acme Riverside''), (''shop'', ''convenience'')],
      item_tkv = None, item_mainTag = None, item_preserveTags = None\<rparr>"

definition twin_match ::
  "string option \<Rightarrow> string option \<Rightarrow> string \<Rightarrow> unit option \<Rightarrow> hit list option" where
  "twin_match k v n loc =
     (if k = Some ''shop'' \<and> v = Some ''convenience'' \<and> n = ''Acme Riverside  ''
      then Some [\<lparr>hit_itemID = ''twin-1'', hit_match = ''primary''\<rparr>] else None)"

definition twin_nsi :: "unit nsi" where
  "twin_nsi =
     (case loadNsiData
             [(''brands/shop/convenience'',
               \<lparr>cat_items = Some [twin_item], cat_properties = None\<rparr>)]
             [] [] acme_trees twin_match of
        Inl e \<Rightarrow> nsi_init
      | Inr nsi \<Rightarrow> nsi)"

definition trailing :: tags where
  "trailing = [(''shop'', ''convenience''), (''name'', ''Acme Riverside  '')]"

definition twin_merged :: tags where
  "twin_merged =
     [(''name'', ''Acme Riverside''), (''brand'', ''Acme''), (''brand:wikidata'', ''Q1''),
      (''shop'', ''convenience'')]"

text \<open>
  The \<open>mainTag\<close> that the build finds for a key of the dataset, the category as the
  build leaves it, and the entries on which the build throws: those without a tree, and
  those with items whose tree is only an inherited member of the trees object.
\<close>

definition mainTagOf :: "(string \<times> string) list \<Rightarrow> string \<Rightarrow> string option" where
  "mainTagOf trees tkv =
     (case treeMainTag trees (treeOf tkv) of Some mainTag \<Rightarrow> mainTag | None \<Rightarrow> None)"

definition annotateCategory ::
  "(string \<times> string) list \<Rightarrow> string \<times> category \<Rightarrow> string \<times> category" where
  "annotateCategory trees entry =
     (case entry of (tkv, category) \<Rightarrow>
        (tkv, category\<lparr>cat_items :=
                map_option (map (annotate tkv (mainTagOf trees tkv))) (cat_items category)\<rparr>))"

definition treeFails :: "(string \<times> string) list \<Rightarrow> string \<times> category \<Rightarrow> bool" where
  "treeFails trees entry =
     (case entry of (tkv, category) \<Rightarrow>
        (case treeMainTag trees (treeOf tkv) of
           None \<Rightarrow> True
         | Some (Some mainTag) \<Rightarrow> False
         | Some None \<Rightarrow> (case cat_items category of Some (it # its) \<Rightarrow> True | _ \<Rightarrow> False)))"

text \<open>A dataset whose only key names the tree \<open>constructor\<close>, with no items.\<close>

definition ctor_tree_data :: "(string \<times> category) list" where
  "ctor_tree_data =
     [(''constructor/amenity/cafe'', \<lparr>cat_items = None, cat_properties = None\<rparr>)]"

section \<open>Properties\<close>

subsection \<open>The order of the tuples\<close>

lemma fold_push_map: "fold (\<lambda>x acc. acc @ [f x]) xs acc = acc @ map f xs"
  by (induction xs arbitrary: acc) simp_all

lemma fold_append_concat:
  assumes "\<And>x acc. g x acc = acc @ h x"
  shows "fold g xs acc = acc @ concat (map h xs)"
  using assms by (induction xs arbitrary: acc) simp_all

lemma kv_loops:
  "fold (\<lambda>whichKV tuples.
           fold (\<lambda>kv tuples. tuples @ [mkTuple kv n]) (pick whichKV tryKVs) tuples)
     [Primary, Alternate] acc = acc @ tuplesFor tryKVs n"
  by (simp add: fold_push_map pick_def tuplesFor_def)

lemma name_loop:
  "fold (\<lambda>n tuples.
           fold (\<lambda>whichKV tuples.
                   fold (\<lambda>kv tuples. tuples @ [mkTuple kv n]) (pick whichKV tryKVs) tuples)
             [Primary, Alternate] tuples) ns acc
   = acc @ concat (map (tuplesFor tryKVs) ns)"
  by (rule fold_append_concat) (rule kv_loops)

text \<open>
  C5. \<open>gatherTuples\<close> returns the full cross product of the names and the key/value
  pairs, in nested order: the tuples of every primary name come before those of any
  alternate name, and for each name its primary pairs come before its alternate pairs.
\<close>

theorem gatherTuples_nested_order:
  "gatherTuples tryKVs tryNames =
     concat (map (tuplesFor tryKVs) (primary tryNames))
     @ concat (map (tuplesFor tryKVs) (alternate tryNames))"
proof -
  have "gatherTuples tryKVs tryNames =
          fold (\<lambda>whichName tuples.
                  tuples @ concat (map (tuplesFor tryKVs) (pick whichName tryNames)))
            [Primary, Alternate] []"
    unfolding gatherTuples_def name_loop ..
  then show ?thesis by (simp add: pick_def)
qed

theorem gatherTuples_nested_order_witness:
  "gatherTuples \<lparr>primary = [''shop/bakery''], alternate = [''building/yes'']\<rparr>
                \<lparr>primary = [''Acme''], alternate = [''Acme Co'']\<rparr> =
     [\<lparr>tuple_k = Some ''shop'', tuple_v = Some ''bakery'', tuple_n = ''Acme''\<rparr>,
      \<lparr>tuple_k = Some ''building'', tuple_v = Some ''yes'', tuple_n = ''Acme''\<rparr>,
      \<lparr>tuple_k = Some ''shop'', tuple_v = Some ''bakery'', tuple_n = ''Acme Co''\<rparr>,
      \<lparr>tuple_k = Some ''building'', tuple_v = Some ''yes'', tuple_n = ''Acme Co''\<rparr>]"
  using gatherTuples_nested_order
          [of "\<lparr>primary = [''shop/bakery''], alternate = [''building/yes'']\<rparr>"
              "\<lparr>primary = [''Acme''], alternate = [''Acme Co'']\<rparr>"]
  by (simp add: tuplesFor_def mkTuple_def js_split_def at_index_def)

subsection \<open>gatherKVs looks at the key only\<close>

lemma set_set_add: "set (set_add xs x) = insert x (set xs)"
  by (auto simp: set_add_def)

lemma kvStep_loaded:
  assumes "nsi_kvt nsi = Some kvt"
  shows "\<exists>acc'. kvStep nsi tags k acc = Inr acc'
           \<and> set (primary acc') = set (primary acc) \<union> kvPrimary kvt tags {k}
           \<and> set (alternate acc') = set (alternate acc) \<union> kvAlternate kvt tags {k}"
proof (cases "map_of tags k")
  case None
  then show ?thesis by (simp add: kvStep_def obj_get_def kvPrimary_def kvAlternate_def Let_def)
next
  case (Some v)
  show ?thesis
  proof (cases "map_of kvt (Some k)")
    case None
    with Some assms show ?thesis
      by (simp add: kvStep_def obj_get_def kvPrimary_def kvAlternate_def Let_def)
  next
    case vmap: (Some vmap)
    with Some assms show ?thesis
      by (cases "v = []"; cases "v = ''yes''")
         (simp_all add: kvStep_def obj_get_def kvPrimary_def kvAlternate_def set_set_add Let_def)
  qed
qed

lemma kvPrimary_Un: "kvPrimary kvt tags (A \<union> B) = kvPrimary kvt tags A \<union> kvPrimary kvt tags B"
  unfolding kvPrimary_def by blast

lemma kvAlternate_Un:
  "kvAlternate kvt tags (A \<union> B) = kvAlternate kvt tags A \<union> kvAlternate kvt tags B"
  unfolding kvAlternate_def by blast

lemma kv_fold:
  assumes "nsi_kvt nsi = Some kvt"
  shows "\<exists>r. foldE (kvStep nsi tags) ks acc = Inr r
           \<and> set (primary r) = set (primary acc) \<union> kvPrimary kvt tags (set ks)
           \<and> set (alternate r) = set (alternate acc) \<union> kvAlternate kvt tags (set ks)"
proof (induction ks arbitrary: acc)
  case Nil
  show ?case by (simp add: kvPrimary_def kvAlternate_def)
next
  case (Cons k ks)
  from kvStep_loaded[OF assms, of tags k acc] obtain acc' where
    step: "kvStep nsi tags k acc = Inr acc'"
    and p: "set (primary acc') = set (primary acc) \<union> kvPrimary kvt tags {k}"
    and a: "set (alternate acc') = set (alternate acc) \<union> kvAlternate kvt tags {k}"
    by blast
  from Cons.IH[of acc'] obtain r where
    r: "foldE (kvStep nsi tags) ks acc' = Inr r"
    "set (primary r) = set (primary acc') \<union> kvPrimary kvt tags (set ks)"
    "set (alternate r) = set (alternate acc') \<union> kvAlternate kvt tags (set ks)" by blast
  have s: "set (k # ks) = {k} \<union> set ks" by simp
  show ?case unfolding s kvPrimary_Un kvAlternate_Un
    using step p a r by (simp add: Un_assoc)
qed

lemma map_of_key: "map_of tags k = Some v \<Longrightarrow> k \<in> fst ` set tags"
  by (metis map_of_SomeD image_eqI fst_conv)

text \<open>
  C3 (as amended). Once \<open>kvt\<close> exists, \<open>gatherKVs\<close> returns normally; a pair
  \<open>key/value\<close> is in its result exactly when the value is not empty and the key is a
  key of \<open>kvt\<close>, whatever values \<open>kvt\<close> lists under that key; the pair is primary
  when the value is not \<open>yes\<close> and alternate when it is; \<open>building/yes\<close> joins the
  alternates when the preset is one of the generic building presets.
\<close>

theorem gatherKVs_by_key:
  assumes "nsi_kvt nsi = Some kvt"
  shows "\<exists>r. gatherKVs nsi ev tags = Inr r
           \<and> set (primary r) = kvPrimary kvt tags UNIV
           \<and> set (alternate r) = kvAlternate kvt tags UNIV
                \<union> (if matchTags ev tags \<in> set buildingPreset then {''building/yes''} else {})"
proof -
  from kv_fold[OF assms, of tags "map fst tags" "\<lparr>primary = [], alternate = []\<rparr>"]
  obtain r where r: "foldE (kvStep nsi tags) (map fst tags) \<lparr>primary = [], alternate = []\<rparr> = Inr r"
    "set (primary r) = kvPrimary kvt tags (set (map fst tags))"
    "set (alternate r) = kvAlternate kvt tags (set (map fst tags))" by auto
  have 1: "kvPrimary kvt tags (set (map fst tags)) = kvPrimary kvt tags UNIV"
    unfolding kvPrimary_def by (rule Collect_cong) (use map_of_key[of tags] in \<open>simp; blast\<close>)
  have 2: "kvAlternate kvt tags (set (map fst tags)) = kvAlternate kvt tags UNIV"
    unfolding kvAlternate_def by (rule Collect_cong) (use map_of_key[of tags] in \<open>simp; blast\<close>)
  show ?thesis using r 1 2 by (auto simp: gatherKVs_def set_set_add)
qed

theorem gatherKVs_by_key_witness:
  "nsi_kvt cafe_nsi = Some cafe_kvt
   \<and> (\<exists>r. gatherKVs cafe_nsi plain_env
               [(''amenity'', ''cafe''), (''shop'', ''yes''), (''atm'', [])] = Inr r
          \<and> ''amenity/cafe'' \<in> set (primary r) \<and> ''shop/yes'' \<notin> set (alternate r))"
proof -
  have h: "nsi_kvt cafe_nsi = Some cafe_kvt" by (simp add: cafe_nsi_def nsi_init_def)
  from gatherKVs_by_key[OF h, of plain_env
         "[(''amenity'', ''cafe''), (''shop'', ''yes''), (''atm'', [])]"]
  show ?thesis using h
    by (auto simp: kvPrimary_def kvAlternate_def plain_env_def buildingPreset_def cafe_kvt_def)
qed

text \<open>
  C3 as stated fails: \<open>amenity=cafe\<close> is gathered although \<open>kvt\<close> lists only
  \<open>restaurant\<close> under \<open>amenity\<close>.
\<close>

theorem gatherKVs_unlisted_value_counterexample:
  "gatherKVs cafe_nsi plain_env [(''amenity'', ''cafe'')]
     = Inr \<lparr>primary = [''amenity/cafe''], alternate = []\<rparr>
   \<and> nsi_kvt cafe_nsi = Some cafe_kvt
   \<and> map_of cafe_kvt (Some ''amenity'') = Some [(Some ''restaurant'', Some ''brands'')]
   \<and> map_of [(Some ''restaurant'', Some ''brands'')] (Some ''cafe'') = None"
  by (simp add: gatherKVs_def kvStep_def cafe_nsi_def cafe_kvt_def plain_env_def nsi_init_def
        obj_get_def set_add_def buildingPreset_def)

subsection \<open>The item chosen among the hits of a tuple\<close>

lemma hitsLoop_find:
  assumes "nsi_dissolved nsi = Some dissolved" and "nsi_ids nsi = Some ids"
  shows "\<forall>hit \<in> set hits. hit_itemID hit \<notin> set inherited \<Longrightarrow>
         hitsLoop nsi newTags hits None = Inr (selected dissolved ids newTags hits)"
proof (induction hits)
  case Nil
  show ?case by (simp add: selected_def)
next
  case (Cons hit hits)
  then have own: "hit_itemID hit \<notin> set inherited"
    and IH: "hitsLoop nsi newTags hits None = Inr (selected dissolved ids newTags hits)"
    by simp_all
  show ?case
  proof (cases "qualifies dissolved ids newTags hit")
    case True
    then show ?thesis using assms own
      by (auto simp: qualifies_def selected_def Let_def split: option.splits)
  next
    case False
    then have "selected dissolved ids newTags (hit # hits) = selected dissolved ids newTags hits"
      by (simp add: selected_def)
    moreover from False
    have "hitsLoop nsi newTags (hit # hits) None = hitsLoop nsi newTags hits None"
      using assms own by (auto simp: qualifies_def Let_def split: option.splits)
    ultimately show ?thesis using IH by simp
  qed
qed

lemma selected_qualifies:
  assumes "selected dissolved ids newTags hits = Some it"
  shows "\<exists>hit \<in> set hits.
           qualifies dissolved ids newTags hit \<and> map_of ids (hit_itemID hit) = Some it"
proof -
  from assms obtain hit where f: "find (qualifies dissolved ids newTags) hits = Some hit"
    and m: "map_of ids (hit_itemID hit) = Some it"
    by (auto simp: selected_def split: option.splits)
  from f have "hit \<in> set hits" "qualifies dissolved ids newTags hit"
    by (auto simp: find_Some_iff)
  with m show ?thesis by blast
qed

lemma acme_nsi_eq:
  "acme_nsi =
     \<lparr>nsi_data = Some acme_loaded, nsi_dissolved = Some [''old-0''],
      nsi_replacements = Some [], nsi_trees = Some acme_trees,
      nsi_kvt = Some [(Some ''shop'', [(Some ''convenience'', Some ''brands'')])],
      nsi_qids = Some [(''Q0'', ''Q0''), (''Q1'', ''Q1''), (''en:Acme'', ''Q1'')],
      nsi_ids = Some [(''old-0'', old_cached), (''acme-1'', acme_cached)],
      nsi_matcher = Some acme_match\<rparr>"
  by (simp add: acme_nsi_def loadNsiData_def acme_data_def tkvStep_def js_split_def
        at_index_def acme_trees_def itemStep_def old_item_def acme_item_def
        old_cached_def acme_cached_def acme_loaded_def annotate_def treeMainTag_def
        plain_get_def)

text \<open>
  What holds of lines 383 to 416 when no hit has an inherited property name as its id:
  for a tuple whose first hit is classified \<open>primary\<close> or \<open>alternate\<close>, the inner loop
  ends with the item of the first hit that meets the five conditions, that item is known
  and not dissolved, and the outer loop returns it or goes on with the next tuple.
\<close>

lemma first_qualifying_hit:
  assumes "nsi_dissolved nsi = Some dissolved" and "nsi_ids nsi = Some ids"
    and "nsi_matcher nsi = Some m"
    and "m (tuple_k tuple) (tuple_v tuple) (tuple_n tuple) loc = Some (hit0 # rest)"
    and "hit_match hit0 = ''primary'' \<or> hit_match hit0 = ''alternate''"
    and "\<forall>hit \<in> set (hit0 # rest). hit_itemID hit \<notin> set inherited"
  shows "hitsLoop nsi newTags (hit0 # rest) None
           = Inr (selected dissolved ids newTags (hit0 # rest))
         \<and> (\<forall>it. selected dissolved ids newTags (hit0 # rest) = Some it \<longrightarrow>
               (\<exists>hit \<in> set (hit0 # rest).
                  hit_itemID hit \<notin> set dissolved \<and> map_of ids (hit_itemID hit) = Some it))
         \<and> tuplesLoop nsi newTags loc (tuple # tuples)
             = (case selected dissolved ids newTags (hit0 # rest) of
                  None \<Rightarrow> tuplesLoop nsi newTags loc tuples
                | Some it \<Rightarrow> Inr (Some it))"
proof (intro conjI allI impI)
  show 1: "hitsLoop nsi newTags (hit0 # rest) None
           = Inr (selected dissolved ids newTags (hit0 # rest))"
    by (rule hitsLoop_find[OF assms(1,2,6)])
  show "tuplesLoop nsi newTags loc (tuple # tuples)
             = (case selected dissolved ids newTags (hit0 # rest) of
                  None \<Rightarrow> tuplesLoop nsi newTags loc tuples
                | Some it \<Rightarrow> Inr (Some it))"
    using assms(3,4,5) 1 by (auto simp del: hitsLoop.simps split: option.splits)
next
  fix it assume "selected dissolved ids newTags (hit0 # rest) = Some it"
  from selected_qualifies[OF this]
  show "\<exists>hit \<in> set (hit0 # rest).
                  hit_itemID hit \<notin> set dissolved \<and> map_of ids (hit_itemID hit) = Some it"
    by (auto simp: qualifies_def)
qed




subsection \<open>The branch splitting rule\<close>

lemma rx_none: "rx_full i RNone s = False"
  by (induction s) auto

lemma rx_none_seq: "rx_full i (RSeq RNone r) s = False"
  by (induction s) auto

lemma rx_alt: "rx_full i (RAlt a b) s = (rx_full i a s \<or> rx_full i b s)"
  by (induction s arbitrary: a b) auto

lemma rx_eps_seq: "rx_full i (RSeq REps r) s = rx_full i r s"
  by (cases s) (simp_all add: rx_alt rx_none_seq)

lemma rx_chr_seq:
  "rx_full True (RSeq (RChr d) r) s =
     (\<exists>c t. s = c # t \<and> canonicalize c = canonicalize d \<and> rx_full True r t)"
  by (cases s) (simp_all add: rx_eps_seq rx_none_seq)

lemma rx_space_seq:
  "rx_full i (RSeq RSpace r) s = (\<exists>c t. s = c # t \<and> is_space c \<and> rx_full i r t)"
  by (cases s) (simp_all add: rx_eps_seq rx_none_seq)

lemma rx_star_dot: "rx_full i (RStar RDot) s = (\<forall>c \<in> set s. \<not> is_line_terminator c)"
  by (induction s) (simp_all add: rx_eps_seq rx_none_seq)

lemma rx_plus_dot:
  "rx_full i (RPlus RDot) s = (s \<noteq> [] \<and> (\<forall>c \<in> set s. \<not> is_line_terminator c))"
  by (cases s) (simp_all add: RPlus_def rx_eps_seq rx_none_seq rx_star_dot)

lemma rx_lit:
  "rx_full True (RLit n r) s =
     (\<exists>p t. s = p @ t \<and> map canonicalize p = map canonicalize n \<and> rx_full True r t)"
proof (induction n arbitrary: s)
  case Nil
  show ?case by simp
next
  case (Cons d n)
  show ?case
  proof
    assume "rx_full True (RLit (d # n) r) s"
    then obtain c t where s: "s = c # t" and c: "canonicalize c = canonicalize d"
      and t: "rx_full True (RLit n r) t"
      by (auto simp: rx_chr_seq)
    from t Cons.IH[of t] obtain p u where "t = p @ u" "map canonicalize p = map canonicalize n"
      "rx_full True r u" by blast
    with s c have "s = (c # p) @ u \<and> map canonicalize (c # p) = map canonicalize (d # n)
                     \<and> rx_full True r u" by simp
    then show "\<exists>p t. s = p @ t \<and> map canonicalize p = map canonicalize (d # n)
                 \<and> rx_full True r t" by blast
  next
    assume "\<exists>p t. s = p @ t \<and> map canonicalize p = map canonicalize (d # n)
                 \<and> rx_full True r t"
    then obtain p t where s: "s = p @ t" and m: "map canonicalize p = map canonicalize (d # n)"
      and r: "rx_full True r t" by blast
    from m obtain c p' where p: "p = c # p'" "canonicalize c = canonicalize d"
      "map canonicalize p' = map canonicalize n" by (cases p) auto
    with r Cons.IH[of "p' @ t"] have "rx_full True (RLit n r) (p' @ t)" by blast
    with s p show "rx_full True (RLit (d # n) r) s"
      unfolding RLit.simps rx_chr_seq by simp
  qed
qed

lemma branchMatch_captures: "(branchMatch n origName = Some rest) = captures origName n rest"
proof
  assume "branchMatch n origName = Some rest"
  then have m: "rx_full True (RLit n (RSeq RSpace (RPlus RDot))) origName"
    and r: "rest = drop (length n + 1) origName"
    by (auto simp: branchMatch_def split: if_splits)
  from m obtain p sp u where o: "origName = p @ sp # u"
    and p: "map canonicalize p = map canonicalize n" and sp: "is_space sp"
    and u: "u \<noteq> []" "\<forall>c \<in> set u. \<not> is_line_terminator c"
    by (auto simp: rx_lit rx_space_seq rx_plus_dot)
  from p have "length p = length n" by (rule map_eq_imp_length_eq)
  with o r have "rest = u" by simp
  with o p sp u show "captures origName n rest" unfolding captures_def by blast
next
  assume "captures origName n rest"
  then obtain p sp where o: "origName = p @ sp # rest"
    and p: "map canonicalize p = map canonicalize n" and sp: "is_space sp"
    and u: "rest \<noteq> []" "\<forall>c \<in> set rest. \<not> is_line_terminator c"
    unfolding captures_def by blast
  from p have l: "length p = length n" by (rule map_eq_imp_length_eq)
  from o p sp u have "rx_full True (RLit n (RSeq RSpace (RPlus RDot))) origName"
    unfolding rx_lit rx_space_seq rx_plus_dot by blast
  moreover from o l have "drop (length n + 1) origName = rest" by simp
  ultimately show "branchMatch n origName = Some rest" by (simp add: branchMatch_def)
qed

lemma captures_drop: "captures origName n rest \<Longrightarrow> rest = drop (length n + 1) origName"
  using branchMatch_captures[of n origName rest] by (auto simp: branchMatch_def split: if_splits)

lemma trim_blank: "(js_trim b = []) = blank b"
proof -
  have "(\<forall>c \<in> set (dropWhile is_space b). is_space c) = blank b"
  proof
    assume a: "\<forall>c \<in> set (dropWhile is_space b). is_space c"
    have "dropWhile is_space b = []"
    proof (rule ccontr)
      assume n: "dropWhile is_space b \<noteq> []"
      from hd_dropWhile[OF n] have "\<not> is_space (hd (dropWhile is_space b))" .
      moreover from n have "hd (dropWhile is_space b) \<in> set (dropWhile is_space b)" by simp
      ultimately show False using a by blast
    qed
    then show "blank b" by (simp add: blank_def)
  next
    assume "blank b"
    then show "\<forall>c \<in> set (dropWhile is_space b). is_space c"
      unfolding blank_def using set_dropWhileD by fast
  qed
  then show ?thesis by (simp add: js_trim_def)
qed

lemma splits_nonblankMatch: "splits origName = nonblankMatch origName"
proof
  fix n
  show "splits origName n = nonblankMatch origName n"
  proof (cases "branchMatch n origName")
    case None
    then have "\<And>rest. \<not> captures origName n rest"
      using branchMatch_captures[of n origName] by simp
    with None show ?thesis by (simp add: splits_def nonblankMatch_def)
  next
    case (Some b)
    have "\<And>rest. captures origName n rest = (rest = b)"
      unfolding branchMatch_captures[symmetric] Some by auto
    with Some show ?thesis by (simp add: splits_def nonblankMatch_def trim_blank)
  qed
qed

lemma find_first:
  "\<forall>m \<in> set pre. \<not> P m \<Longrightarrow> P n \<Longrightarrow> find P (pre @ n # post) = Some n"
  by (induction pre) auto

lemma findBranch_find_drop:
  "findBranch candidates origName =
     (case find (nonblankMatch origName) candidates of
        None \<Rightarrow> None
      | Some n \<Rightarrow> Some (drop (length n + 1) origName))"
  by (induction candidates)
     (auto simp: nonblankMatch_def branchMatch_def split: option.splits)

lemma set_newSetOf_aux: "set (fold (\<lambda>x s. set_add s x) xs acc) = set acc \<union> set xs"
  by (induction xs arbitrary: acc) (auto simp: set_add_def)

lemma set_sortLongestFirst: "set (sortLongestFirst xs) = set xs"
  by (simp add: sortLongestFirst_def)

lemma sorted_sortLongestFirst:
  "sorted_wrt (\<lambda>a b. length b \<le> length a) (sortLongestFirst xs)"
proof -
  have "sorted (map (\<lambda>a. - int (length a)) (sortLongestFirst xs))"
    unfolding sortLongestFirst_def by (rule sorted_sort_key)
  then show ?thesis by (simp add: sorted_map)
qed

lemma branchMatch_empty: "branchMatch n [] = None"
  by (cases "branchMatch n []") (auto simp: branchMatch_captures captures_def)

lemma splitBranch_find:
  assumes "obj_get newTags ''name'' = Some newName" and "newName \<noteq> []"
    and "newName \<noteq> origName"
    and "\<not> truthy (obj_get newTags ''branch'')"
    and "origName \<notin> set (newSetOf (gatherNames newTags))"
  shows "splitBranch newTags (Some origName) =
           (case find (splits origName)
                   (sortLongestFirst (newSetOf (gatherNames newTags))) of
              None \<Rightarrow> newTags
            | Some n \<Rightarrow> obj_set newTags ''branch'' (drop (length n + 1) origName))"
proof (cases "origName = []")
  case True
  have "find (nonblankMatch []) (sortLongestFirst (newSetOf (gatherNames newTags))) = None"
    by (simp add: find_None_iff nonblankMatch_def branchMatch_empty)
  with True show ?thesis by (simp add: splitBranch_def splits_nonblankMatch)
next
  case False
  with assms show ?thesis
    by (auto simp: splitBranch_def Let_def findBranch_find_drop splits_nonblankMatch
             split: option.splits)
qed

lemma acme_riverside_upgrade:
  "upgradeTags acme_nsi plain_env [riverside] 0 None
     = ([riverside, obj_set acme_merged ''branch'' ''Riverside''], Inr (Some 1))"
  by code_simp

lemma twin_upgrade:
  "upgradeTags twin_nsi plain_env [trailing] 0 None
     = ([trailing, obj_set twin_merged ''branch'' ''Riverside  ''], Inr (Some 1))"
  by code_simp

text \<open>
  C2 (as amended). When the merged name exists and differs from the original name, the
  merged tags have no branch and the original name is not among the names gathered from
  the merged tags, the rule goes through those names longest first. A name splits the
  original name when the original name is that name up to case, one white space
  character, and a remainder without line terminator that is not blank. \<open>branch\<close> is set
  to the remainder of the first name that splits it; the tags are unchanged when none
  does. The feature \<open>{shop: convenience, name: Acme Riverside}\<close> gets the Acme tags and
  the branch \<open>Riverside\<close>.
\<close>

theorem branch_split_rule:
  assumes "obj_get newTags ''name'' = Some newName" and "newName \<noteq> []"
    and "newName \<noteq> origName"
    and "\<not> truthy (obj_get newTags ''branch'')"
    and "origName \<notin> set (newSetOf (gatherNames newTags))"
  shows "splitBranch newTags (Some origName) =
           (case find (splits origName)
                   (sortLongestFirst (newSetOf (gatherNames newTags))) of
              None \<Rightarrow> newTags
            | Some n \<Rightarrow> obj_set newTags ''branch'' (drop (length n + 1) origName))
         \<and> (\<forall>n. splits origName n \<longrightarrow>
                captures origName n (drop (length n + 1) origName)
                \<and> \<not> blank (drop (length n + 1) origName))
         \<and> set (sortLongestFirst (newSetOf (gatherNames newTags)))
             = set (primary (gatherNames newTags)) \<union> set (alternate (gatherNames newTags))
         \<and> sorted_wrt (\<lambda>a b. length b \<le> length a)
             (sortLongestFirst (newSetOf (gatherNames newTags)))
         \<and> upgradeTags acme_nsi plain_env [riverside] 0 None
             = ([riverside, obj_set acme_merged ''branch'' ''Riverside''], Inr (Some 1))"
proof (intro conjI allI impI)
  let ?cands = "sortLongestFirst (newSetOf (gatherNames newTags))"
  show "splitBranch newTags (Some origName) =
           (case find (splits origName) ?cands of
              None \<Rightarrow> newTags
            | Some n \<Rightarrow> obj_set newTags ''branch'' (drop (length n + 1) origName))"
    by (rule splitBranch_find[OF assms])
  show "set ?cands = set (primary (gatherNames newTags)) \<union> set (alternate (gatherNames newTags))"
    by (simp add: set_sortLongestFirst newSetOf_def set_newSetOf_aux)
  show "sorted_wrt (\<lambda>a b. length b \<le> length a) ?cands" by (rule sorted_sortLongestFirst)
  show "upgradeTags acme_nsi plain_env [riverside] 0 None
             = ([riverside, obj_set acme_merged ''branch'' ''Riverside''], Inr (Some 1))"
    by (rule acme_riverside_upgrade)
next
  fix n assume "splits origName n"
  then obtain rest where r: "captures origName n rest" "\<not> blank rest"
    unfolding splits_def by blast
  from captures_drop[OF r(1)] r
  show "captures origName n (drop (length n + 1) origName)"
    and "\<not> blank (drop (length n + 1) origName)" by simp_all
qed

theorem branch_split_rule_witness:
  "obj_get acme_merged ''name'' = Some ''Acme'' \<and> ''Acme'' \<noteq> []
   \<and> ''Acme'' \<noteq> ''Acme Riverside''
   \<and> \<not> truthy (obj_get acme_merged ''branch'')
   \<and> ''Acme Riverside'' \<notin> set (newSetOf (gatherNames acme_merged))
   \<and> sortLongestFirst (newSetOf (gatherNames acme_merged)) = [''Acme'', ''Q1'']
   \<and> captures ''Acme Riverside'' ''Acme'' ''Riverside''
   \<and> splitBranch acme_merged (Some ''Acme Riverside'')
       = obj_set acme_merged ''branch'' ''Riverside''"
proof -
  have n: "obj_get acme_merged ''name'' = Some ''Acme''" by code_simp
  have e: "''Acme'' \<noteq> []" and d: "''Acme'' \<noteq> ''Acme Riverside''" by simp_all
  have b: "\<not> truthy (obj_get acme_merged ''branch'')" by code_simp
  have c: "sortLongestFirst (newSetOf (gatherNames acme_merged)) = [''Acme'', ''Q1'']"
    by code_simp
  have m: "''Acme Riverside'' \<notin> set (newSetOf (gatherNames acme_merged))"
    by code_simp
  have "find (nonblankMatch ''Acme Riverside'') [''Acme'', ''Q1''] = Some ''Acme''"
    by code_simp
  then have f: "find (splits ''Acme Riverside'') [''Acme'', ''Q1''] = Some ''Acme''"
    by (simp only: splits_nonblankMatch)
  have "branchMatch ''Acme'' ''Acme Riverside'' = Some ''Riverside''" by code_simp
  then have k: "captures ''Acme Riverside'' ''Acme'' ''Riverside''"
    by (simp only: branchMatch_captures)
  from branch_split_rule[OF n e d b m] n b c m f k show ?thesis by simp
qed

text \<open>
  C2 as stated fails: with the original name \<open>Acme Riverside\<close> followed by two
  spaces, the first candidate that matches captures one space; stopping there would set
  \<open>branch\<close> to it, but the rule goes on and stores the remainder found for \<open>Acme\<close>.
\<close>

theorem branch_first_match_counterexample:
  "obj_get two_names ''name'' = Some ''Acme Riverside''
   \<and> ''Acme Riverside'' \<noteq> ''Acme Riverside  ''
   \<and> obj_get two_names ''branch'' = None
   \<and> ''Acme Riverside  '' \<notin> set (newSetOf (gatherNames two_names))
   \<and> sortLongestFirst (newSetOf (gatherNames two_names)) = [''Acme Riverside'', ''Acme'']
   \<and> firstMatch [''Acme Riverside'', ''Acme''] ''Acme Riverside  '' = Some '' ''
   \<and> splitBranch two_names (Some ''Acme Riverside  '')
       = obj_set two_names ''branch'' ''Riverside  ''"
  by code_simp

text \<open>
  C10. Under the conditions of the branch rule, with the gathered names taken longest
  first: a name whose match captures only white space is passed over, and \<open>branch\<close> is
  set to the untrimmed remainder captured for the first name whose remainder is not
  blank; when every remainder captured is blank the tags stay as they are. So
  \<open>upgradeTags\<close>, for the name \<open>Acme Riverside\<close> followed by two spaces and an item
  named \<open>Acme Riverside\<close> of the brand \<open>Acme\<close>, passes over the one space captured for
  the item's name and stores \<open>Riverside\<close> with its two spaces.
\<close>

theorem branch_needs_nonblank_remainder:
  assumes "obj_get newTags ''name'' = Some newName" and "newName \<noteq> []"
    and "newName \<noteq> origName"
    and "\<not> truthy (obj_get newTags ''branch'')"
    and "origName \<notin> set (newSetOf (gatherNames newTags))"
  shows "(sortLongestFirst (newSetOf (gatherNames newTags)) = pre @ n # post
            \<and> (\<forall>m \<in> set pre. \<forall>r. captures origName m r \<longrightarrow> blank r)
            \<and> captures origName n rest \<and> \<not> blank rest
          \<longrightarrow> splitBranch newTags (Some origName) = obj_set newTags ''branch'' rest)
         \<and> ((\<forall>m \<in> set (sortLongestFirst (newSetOf (gatherNames newTags))).
                \<forall>r. captures origName m r \<longrightarrow> blank r)
          \<longrightarrow> splitBranch newTags (Some origName) = newTags)
         \<and> blank rest = (js_trim rest = [])
         \<and> upgradeTags twin_nsi plain_env [trailing] 0 None
             = ([trailing, obj_set twin_merged ''branch'' ''Riverside  ''], Inr (Some 1))"
proof (intro conjI impI)
  let ?cands = "sortLongestFirst (newSetOf (gatherNames newTags))"
  note eq = splitBranch_find[OF assms]
  show "splitBranch newTags (Some origName) = obj_set newTags ''branch'' rest"
    if h: "?cands = pre @ n # post
            \<and> (\<forall>m \<in> set pre. \<forall>r. captures origName m r \<longrightarrow> blank r)
            \<and> captures origName n rest \<and> \<not> blank rest"
  proof -
    from h have "\<forall>m \<in> set pre. \<not> splits origName m" unfolding splits_def by blast
    moreover from h have "splits origName n" unfolding splits_def by blast
    ultimately have "find (splits origName) (pre @ n # post) = Some n" by (rule find_first)
    moreover from h captures_drop have "rest = drop (length n + 1) origName" by blast
    ultimately show ?thesis using eq h by simp
  qed
  show "splitBranch newTags (Some origName) = newTags"
    if h: "\<forall>m \<in> set ?cands. \<forall>r. captures origName m r \<longrightarrow> blank r"
  proof -
    from h have "\<forall>m \<in> set ?cands. \<not> splits origName m" unfolding splits_def by blast
    then have "find (splits origName) ?cands = None" by (simp add: find_None_iff)
    with eq show ?thesis by simp
  qed
  show "blank rest = (js_trim rest = [])" by (simp add: trim_blank)
  show "upgradeTags twin_nsi plain_env [trailing] 0 None
             = ([trailing, obj_set twin_merged ''branch'' ''Riverside  ''], Inr (Some 1))"
    by (rule twin_upgrade)
qed

theorem branch_needs_nonblank_remainder_witness:
  "obj_get twin_merged ''name'' = Some ''Acme Riverside''
   \<and> ''Acme Riverside'' \<noteq> ''Acme Riverside  ''
   \<and> \<not> truthy (obj_get twin_merged ''branch'')
   \<and> ''Acme Riverside  '' \<notin> set (newSetOf (gatherNames twin_merged))
   \<and> sortLongestFirst (newSetOf (gatherNames twin_merged))
       = [''Acme Riverside''] @ ''Acme'' # [''Q1'']
   \<and> captures ''Acme Riverside  '' ''Acme Riverside'' '' '' \<and> blank '' ''
   \<and> captures ''Acme Riverside  '' ''Acme'' ''Riverside  '' \<and> \<not> blank ''Riverside  ''
   \<and> splitBranch twin_merged (Some ''Acme Riverside  '')
       = obj_set twin_merged ''branch'' ''Riverside  ''"
proof -
  let ?o = "''Acme Riverside  ''"
  have n: "obj_get twin_merged ''name'' = Some ''Acme Riverside''" by code_simp
  have e: "''Acme Riverside'' \<noteq> []" and d: "''Acme Riverside'' \<noteq> ?o" by simp_all
  have b: "\<not> truthy (obj_get twin_merged ''branch'')" by code_simp
  have m: "?o \<notin> set (newSetOf (gatherNames twin_merged))" by code_simp
  have c: "sortLongestFirst (newSetOf (gatherNames twin_merged))
             = [''Acme Riverside''] @ ''Acme'' # [''Q1'']" by code_simp
  have "branchMatch ''Acme Riverside'' ?o = Some '' ''" by code_simp
  then have k1: "\<And>r. captures ?o ''Acme Riverside'' r = (r = '' '')"
    unfolding branchMatch_captures[symmetric] by auto
  have b1: "blank '' ''" by code_simp
  have "branchMatch ''Acme'' ?o = Some ''Riverside  ''" by code_simp
  then have k2: "captures ?o ''Acme'' ''Riverside  ''" by (simp only: branchMatch_captures)
  have b2: "\<not> blank ''Riverside  ''" by code_simp
  from k1 b1 have p: "\<forall>m \<in> set [''Acme Riverside'']. \<forall>r. captures ?o m r \<longrightarrow> blank r"
    by simp
  from branch_needs_nonblank_remainder[OF n e d b m, of "[''Acme Riverside'']" "''Acme''"
         "[''Q1'']" "''Riverside  ''"] c p k2 b2
  have "splitBranch twin_merged (Some ?o) = obj_set twin_merged ''branch'' ''Riverside  ''"
    by blast
  with n d b m c k1 b1 k2 b2 show ?thesis by simp
qed

subsection \<open>Values with a semicolon\<close>

lemma nameStep_semi_stays:
  "\<exists>p' a'. nameStep tags k (p, a, True) = (p', a', True)"
  by (auto simp: nameStep_def split: option.splits)

lemma names_fold_semi_stays:
  "\<exists>p' a'. fold (nameStep tags) ks (p, a, True) = (p', a', True)"
proof (induction ks arbitrary: p a)
  case Nil show ?case by simp
next
  case (Cons k ks)
  obtain p' a' where "nameStep tags k (p, a, True) = (p', a', True)"
    using nameStep_semi_stays by blast
  with Cons.IH[of p' a'] show ?case by simp
qed

lemma nameStep_clean:
  assumes "\<forall>x \<in> set p. \<not> hasSemi x" and "nameStep tags k (p, a, s) = (p', a', s')"
  shows "\<forall>x \<in> set p'. \<not> hasSemi x"
  using assms by (auto simp: nameStep_def set_add_def split: option.splits if_splits)

lemma nameStep_finds_semi:
  assumes "map_of tags k = Some v" and "hasSemi v"
    and "isNamelike tags k Primary \<or> isNamelike tags k Alternate"
    and "\<forall>x \<in> set p. \<not> hasSemi x"
  shows "\<exists>p' a'. nameStep tags k (p, a, s) = (p', a', True)"
proof -
  from assms(2) have "v \<noteq> []" by (auto simp: hasSemi_def)
  moreover from assms(2,4) have "v \<notin> set p" by blast
  ultimately show ?thesis using assms(1,2,3)
    by (auto simp: nameStep_def obj_get_def)
qed

lemma names_fold_finds_semi:
  assumes "map_of tags k = Some v" and "hasSemi v"
    and "isNamelike tags k Primary \<or> isNamelike tags k Alternate"
  shows "k \<in> set ks \<Longrightarrow> \<forall>x \<in> set p. \<not> hasSemi x \<Longrightarrow>
         \<exists>p' a'. fold (nameStep tags) ks (p, a, s) = (p', a', True)"
proof (induction ks arbitrary: p a s)
  case Nil then show ?case by simp
next
  case (Cons k' ks)
  show ?case
  proof (cases "k' = k")
    case True
    from nameStep_finds_semi[OF assms Cons.prems(2), of a s] obtain p1 a1
      where "nameStep tags k (p, a, s) = (p1, a1, True)" by blast
    with True names_fold_semi_stays[of tags ks p1 a1] show ?thesis by simp
  next
    case False
    obtain p1 a1 s1 where st: "nameStep tags k' (p, a, s) = (p1, a1, s1)"
      by (cases "nameStep tags k' (p, a, s)") auto
    from nameStep_clean[OF Cons.prems(2) st] have "\<forall>x \<in> set p1. \<not> hasSemi x" .
    moreover from False Cons.prems(1) have "k \<in> set ks" by simp
    ultimately show ?thesis using Cons.IH[of p1 a1 s1] st by simp
  qed
qed

lemma countryFallback_semi_stays:
  "\<exists>p' a'. countryFallback tags (p, a, True) = (p', a', True)"
  by (auto simp: countryFallback_def Let_def)

lemma gatherNames_semi:
  assumes "map_of tags k = Some v" and "hasSemi v"
    and "isNamelike tags k Primary \<or> isNamelike tags k Alternate"
  shows "gatherNames tags = no_candidates"
proof -
  from map_of_key[OF assms(1)] have "k \<in> set (map fst tags)" by simp
  from names_fold_finds_semi[OF assms this, of "[]" "[]" False]
  obtain p1 a1 where f: "fold (nameStep tags) (map fst tags) ([], [], False) = (p1, a1, True)"
    by auto
  obtain p2 a2 where "countryFallback tags (p1, a1, True) = (p2, a2, True)"
    using countryFallback_semi_stays by blast
  with f show ?thesis by (simp add: gatherNames_def no_candidates_def)
qed

lemma names_fold_nothing:
  assumes "\<forall>k v. map_of tags k = Some v \<and> v \<noteq> [] \<longrightarrow>
             \<not> isNamelike tags k Primary \<and> \<not> isNamelike tags k Alternate"
  shows "fold (nameStep tags) ks ([], [], s) = ([], [], s)"
proof (induction ks)
  case Nil show ?case by simp
next
  case (Cons k ks)
  have "nameStep tags k ([], [], s) = ([], [], s)"
    using assms by (auto simp: nameStep_def obj_get_def split: option.splits)
  with Cons.IH show ?case by simp
qed

lemma gatherNames_country_semi:
  assumes "obj_get tags ''man_made'' = Some ''flagpole''"
    and "obj_get tags ''country'' = Some v" and "hasSemi v"
    and "\<forall>k v. map_of tags k = Some v \<and> v \<noteq> [] \<longrightarrow>
             \<not> isNamelike tags k Primary \<and> \<not> isNamelike tags k Alternate"
  shows "gatherNames tags = no_candidates"
proof -
  from assms(3) have "v \<noteq> []" by (auto simp: hasSemi_def)
  with assms(1,2,3) show ?thesis
    by (simp add: gatherNames_def names_fold_nothing[OF assms(4)] countryFallback_def
          no_candidates_def)
qed

lemma gatherKVs_total:
  assumes "nsi_kvt nsi = Some kvt"
  shows "\<exists>r. gatherKVs nsi ev tags = Inr r"
  using kv_fold[OF assms, of tags "map fst tags" "\<lparr>primary = [], alternate = []\<rparr>"]
  by (auto simp: gatherKVs_def)

lemma semi_tags_names: "gatherNames semi_tags = no_candidates"
  by code_simp

lemma semi_tags_copy: "obj_assign [] semi_tags = semi_tags"
  by code_simp

lemma semi_tags_replace:
  "foldE (replaceStep nsi) (map fst semi_tags) (semi_tags, False) = Inr (semi_tags, False)"
proof -
  have "\<not> wikidataKey ''shop''" and "\<not> wikidataKey ''name''" by code_simp+
  then show ?thesis by (simp add: semi_tags_def replaceStep_def)
qed

lemma semi_tags_qid:
  assumes "nsi_qids nsi = Some qids"
  shows "findQID nsi semi_tags = Inr None"
  using assms by (simp add: findQID_def semi_tags_def obj_get_def qidsGet_def)

lemma semi_tags_upgrade:
  assumes "nsi_kvt nsi = Some kvt" and "nsi_qids nsi = Some qids"
    and "tags < length h" and "h ! tags = semi_tags"
  shows "snd (upgradeTags nsi ev h tags loc) = Inr None"
proof -
  obtain r where r: "gatherKVs nsi ev semi_tags = Inr r"
    using gatherKVs_total[OF assms(1)] by blast
  have t: "(h @ [semi_tags])[length h := semi_tags] ! tags = semi_tags"
    using assms(3,4) by (simp add: nth_append)
  show ?thesis
    using assms(3,4) r t
    by (simp add: upgradeTags_def Let_def semi_tags_copy semi_tags_replace semi_tags_names
          semi_tags_qid[OF assms(2)] no_candidates_def nth_append withQID_def)
qed

text \<open>
  C4. If the value of a key that is name-like (primary or alternate) contains a
  semicolon, \<open>gatherNames\<close> returns two empty sets; so it does when the \<open>country\<close>
  value of a flagpole without any other name contains one. For
  \<open>{ shop: "supermarket", name: "A;B" }\<close> no name is gathered, and with a loaded cache
  \<open>upgradeTags\<close> returns \<open>null\<close>.
\<close>

theorem semicolon_stops_matching:
  "(map_of tags k = Some v \<and> hasSemi v
      \<and> (isNamelike tags k Primary \<or> isNamelike tags k Alternate)
      \<longrightarrow> gatherNames tags = no_candidates)
   \<and> (obj_get tags ''man_made'' = Some ''flagpole'' \<and> obj_get tags ''country'' = Some v
      \<and> hasSemi v
      \<and> (\<forall>k v. map_of tags k = Some v \<and> v \<noteq> [] \<longrightarrow>
             \<not> isNamelike tags k Primary \<and> \<not> isNamelike tags k Alternate)
      \<longrightarrow> gatherNames tags = no_candidates)
   \<and> gatherNames semi_tags = no_candidates
   \<and> (nsi_kvt nsi = Some kvt \<and> nsi_qids nsi = Some qids \<and> ref < length h
      \<and> h ! ref = semi_tags
      \<longrightarrow> snd (upgradeTags nsi ev h ref loc) = Inr None)"
  using gatherNames_semi gatherNames_country_semi semi_tags_names semi_tags_upgrade
  by blast

theorem semicolon_stops_matching_witness:
  "map_of semi_tags ''name'' = Some ''A;B'' \<and> hasSemi ''A;B''
   \<and> isNamelike semi_tags ''name'' Primary
   \<and> gatherNames semi_tags = no_candidates
   \<and> nsi_kvt acme_nsi = Some [(Some ''shop'', [(Some ''convenience'', Some ''brands'')])]
   \<and> nsi_qids acme_nsi = Some [(''Q0'', ''Q0''), (''Q1'', ''Q1''), (''en:Acme'', ''Q1'')]
   \<and> upgradeTags acme_nsi plain_env [semi_tags] 0 None = ([semi_tags, semi_tags], Inr None)"
proof -
  have 1: "map_of semi_tags ''name'' = Some ''A;B''" by code_simp
  have 2: "hasSemi ''A;B''" by code_simp
  have 3: "isNamelike semi_tags ''name'' Primary" by code_simp
  have 4: "nsi_kvt acme_nsi = Some [(Some ''shop'', [(Some ''convenience'', Some ''brands'')])]"
    and 5: "nsi_qids acme_nsi = Some [(''Q0'', ''Q0''), (''Q1'', ''Q1''), (''en:Acme'', ''Q1'')]"
    by (simp_all add: acme_nsi_eq)
  have 6: "fst (upgradeTags acme_nsi plain_env [semi_tags] 0 None) = [semi_tags, semi_tags]"
    by code_simp
  from semicolon_stops_matching[of semi_tags "''name''" "''A;B''" acme_nsi _ _ 0 "[semi_tags]" plain_env None]
    1 2 3 4 5 6
  show ?thesis by (simp add: prod_eq_iff)
qed

subsection \<open>upgradeTags writes to its copy only\<close>

lemma upgradeTags_store:
  "\<exists>obj. fst (upgradeTags nsi ev h tags loc) = h @ [obj]"
proof (cases "tags < length h")
  case False
  then show ?thesis by (simp add: upgradeTags_def Let_def)
next
  case t: True
  let ?copy = "obj_assign [] (h ! tags)"
  show ?thesis
  proof (cases "foldE (replaceStep nsi) (map fst ?copy) (?copy, False)")
    case (Inl e)
    with t show ?thesis by (simp add: upgradeTags_def Let_def)
  next
    case (Inr rc)
    obtain replaced changed where rc: "rc = (replaced, changed)" by (cases rc)
    have rd: "(h @ [replaced]) ! tags = h ! tags" using t by (simp add: nth_append)
    show ?thesis
    proof (cases "gatherKVs nsi ev (h ! tags)")
      case (Inl e)
      with t Inr rc rd show ?thesis by (simp add: upgradeTags_def Let_def)
    next
      case kv: (Inr tryKVs)
      show ?thesis
      proof (cases "findQID nsi (h ! tags)")
        case (Inl e)
        with t Inr rc rd kv show ?thesis by (simp add: upgradeTags_def Let_def)
      next
        case q: (Inr foundQID)
        let ?names = "withQID (gatherNames (h ! tags)) foundQID"
        show ?thesis
        proof (cases "tuplesLoop nsi replaced loc (gatherTuples tryKVs ?names)")
          case (Inl e)
          with t Inr rc rd kv q show ?thesis by (simp add: upgradeTags_def Let_def)
        next
          case tl: (Inr sel)
          show ?thesis
          proof (cases sel)
            case None
            with t Inr rc rd kv q tl show ?thesis by (simp add: upgradeTags_def Let_def)
          next
            case (Some it)
            show ?thesis
            proof (cases "mergeItem nsi ev it foundQID replaced")
              case (Inl e)
              with t Inr rc rd kv q tl Some show ?thesis
                by (simp add: upgradeTags_def Let_def)
            next
              case m: (Inr merged)
              with t Inr rc rd kv q tl Some show ?thesis
                by (simp add: upgradeTags_def Let_def)
            qed
          qed
        qed
      qed
    qed
  qed
qed

text \<open>
  C7. \<open>upgradeTags\<close> leaves every object that was in the store as it was, the
  caller's \<open>tags\<close> among them, whatever it returns or throws: the final store is the
  initial one followed by the one object the call allocates.
\<close>

theorem upgradeTags_keeps_input:
  "take (length h) (fst (upgradeTags nsi ev h tags loc)) = h
   \<and> (tags < length h \<longrightarrow> fst (upgradeTags nsi ev h tags loc) ! tags = h ! tags)"
proof -
  obtain obj where "fst (upgradeTags nsi ev h tags loc) = h @ [obj]"
    using upgradeTags_store by blast
  then show ?thesis by (simp add: nth_append)
qed

theorem upgradeTags_keeps_input_witness:
  "(0::nat) < length [riverside]
   \<and> snd (upgradeTags acme_nsi plain_env [riverside] 0 None) = Inr (Some 1)
   \<and> fst (upgradeTags acme_nsi plain_env [riverside] 0 None) ! 0 = riverside
   \<and> fst (upgradeTags acme_nsi plain_env [riverside] 0 None) ! 1 \<noteq> riverside"
proof -
  have "fst (upgradeTags acme_nsi plain_env [riverside] 0 None) ! 1 \<noteq> riverside"
    unfolding acme_riverside_upgrade
    by (simp add: obj_set_def acme_merged_def riverside_def)
  with upgradeTags_keeps_input[of "[riverside]" acme_nsi plain_env 0 None]
  show ?thesis by (simp add: acme_riverside_upgrade)
qed

subsection \<open>Before the data are loaded\<close>

lemma replace_unloaded:
  "foldE (replaceStep (nsi_init :: 'l nsi)) ks s =
     (if list_ex wikidataKey ks then Inl TypeError else Inr s)"
  by (induction ks) (simp_all add: replaceStep_def nsi_init_def)

lemma kv_unloaded:
  "foldE (kvStep (nsi_init :: 'l nsi) tags) ks acc =
     (if list_ex (\<lambda>osmkey. truthy (obj_get tags osmkey)) ks then Inl TypeError else Inr acc)"
  by (induction ks) (simp_all add: kvStep_def nsi_init_def Let_def)

lemma keys_obj_set: "set (map fst (obj_set obj k v)) = insert k (set (map fst obj))"
  by (auto simp: obj_set_def update_keys)

lemma keys_obj_assign_aux:
  "set (map fst (fold (\<lambda>(k, v) t. obj_set t k v) src target))
     = set (map fst target) \<union> set (map fst src)"
proof (induction src arbitrary: target)
  case Nil show ?case by simp
next
  case (Cons p src)
  obtain k v where p: "p = (k, v)" by (cases p)
  show ?case using Cons.IH[of "obj_set target k v"] keys_obj_set[of target k v]
    by (simp add: p del: set_map)
qed

lemma keys_obj_assign: "set (map fst (obj_assign [] src)) = set (map fst src)"
  using keys_obj_assign_aux[of src "[]"] by (simp add: obj_assign_def)

lemma list_ex_keys_copy: "list_ex P (map fst (obj_assign [] src)) = list_ex P (map fst src)"
  unfolding list_ex_iff keys_obj_assign ..

lemma gatherKVs_unloaded:
  "gatherKVs (nsi_init :: 'l nsi) ev tags =
     (if list_ex (\<lambda>osmkey. truthy (obj_get tags osmkey)) (map fst tags) then Inl TypeError
      else Inr (if matchTags ev tags \<in> set buildingPreset
                then \<lparr>primary = [], alternate = [''building/yes'']\<rparr>
                else \<lparr>primary = [], alternate = []\<rparr>))"
  by (simp add: gatherKVs_def kv_unloaded set_add_def)

lemma findQID_unloaded: "findQID (nsi_init :: 'l nsi) tags = Inl TypeError"
  by (simp add: findQID_def nsi_init_def)

lemma upgradeTags_unloaded:
  assumes "tags < length h"
  shows "snd (upgradeTags (nsi_init :: 'l nsi) ev h tags loc) =
           (if touchesCache ev (h ! tags) then Inl TypeError else Inr None)"
proof -
  let ?copy = "obj_assign [] (h ! tags)"
  have rd: "\<And>x. (h @ [x]) ! tags = h ! tags" using assms by (simp add: nth_append)
  have rp: "foldE (replaceStep (nsi_init :: 'l nsi)) (map fst ?copy) (?copy, False) =
              (if list_ex wikidataKey (map fst (h ! tags)) then Inl TypeError
               else Inr (?copy, False))"
    by (simp add: replace_unloaded list_ex_keys_copy)
  show ?thesis
  proof (cases "list_ex wikidataKey (map fst (h ! tags))")
    case True
    with assms rp show ?thesis by (simp add: upgradeTags_def Let_def touchesCache_def)
  next
    case w: False
    show ?thesis
    proof (cases "list_ex (\<lambda>osmkey. truthy (obj_get (h ! tags) osmkey)) (map fst (h ! tags))")
      case True
      with assms rp w rd show ?thesis
        by (simp add: upgradeTags_def Let_def touchesCache_def gatherKVs_unloaded)
    next
      case v: False
      show ?thesis
      proof (cases "matchTags ev (h ! tags) \<in> set buildingPreset")
        case True
        with assms rp w v rd show ?thesis
          by (simp add: upgradeTags_def Let_def touchesCache_def gatherKVs_unloaded
                findQID_unloaded)
      next
        case False
        with assms rp w v rd show ?thesis
          by (simp add: upgradeTags_def Let_def touchesCache_def gatherKVs_unloaded)
      qed
    qed
  qed
qed

lemma name_key_truthy:
  assumes "truthy (obj_get tags ''name'')"
  shows "list_ex (\<lambda>osmkey. truthy (obj_get tags osmkey)) (map fst tags)"
proof -
  from assms obtain v where "map_of tags ''name'' = Some v"
    by (cases "obj_get tags ''name''") (auto simp: obj_get_def)
  from map_of_key[OF this] have "''name'' \<in> set (map fst tags)" by simp
  with assms show ?thesis unfolding list_ex_iff by blast
qed

lemma isGenericName_unloaded:
  "isGenericName (nsi_init :: 'l nsi) ev tags =
     (if truthy (obj_get tags ''name'') then Inl TypeError else Inr False)"
  using name_key_truthy[of tags]
  by (simp add: isGenericName_def Let_def gatherKVs_unloaded)

text \<open>
  C8 (as amended). With the cache as the module creates it (\<open>{}\<close>), \<open>upgradeTags\<close>
  returns \<open>null\<close> when the tags have no key \<open>[prefix:]wikidata\<close>, no value that is
  not empty and no generic building preset, and throws a \<open>TypeError\<close> on every other
  input; \<open>isGenericName\<close> returns \<open>false\<close> when the name is missing or empty and
  throws a \<open>TypeError\<close> otherwise.
\<close>

theorem unloaded_cache_throws:
  "(ref < length h \<longrightarrow>
      snd (upgradeTags (nsi_init :: 'l nsi) ev h ref loc) =
        (if touchesCache ev (h ! ref) then Inl TypeError else Inr None))
   \<and> isGenericName (nsi_init :: 'l nsi) ev tags =
        (if truthy (obj_get tags ''name'') then Inl TypeError else Inr False)"
  by (simp add: upgradeTags_unloaded isGenericName_unloaded)



theorem unloaded_cache_throws_witness:
  "(0::nat) < length [[(''shop'', [])]]
   \<and> \<not> touchesCache plain_env [(''shop'', [])]
   \<and> snd (upgradeTags (nsi_init :: unit nsi) plain_env [[(''shop'', [])]] 0 None) = Inr None
   \<and> touchesCache plain_env riverside
   \<and> snd (upgradeTags (nsi_init :: unit nsi) plain_env [riverside] 0 None) = Inl TypeError
   \<and> isGenericName (nsi_init :: unit nsi) plain_env [(''shop'', [])] = Inr False"
proof -
  have 1: "\<not> touchesCache plain_env [(''shop'', [])]" by code_simp
  have 2: "touchesCache plain_env riverside" by code_simp
  have 3: "\<not> truthy (obj_get [(''shop'', [])] ''name'')" by code_simp
  have a: "snd (upgradeTags (nsi_init :: unit nsi) plain_env [[(''shop'', [])]] 0 None) = Inr None"
    using unloaded_cache_throws[where 'l = unit, of 0 "[[(''shop'', [])]]" plain_env None "[(''shop'', [])]"] 1
    by simp
  have b: "snd (upgradeTags (nsi_init :: unit nsi) plain_env [riverside] 0 None) = Inl TypeError"
    using unloaded_cache_throws[where 'l = unit, of 0 "[riverside]" plain_env None "[(''shop'', [])]"] 2
    by simp
  have c: "isGenericName (nsi_init :: unit nsi) plain_env [(''shop'', [])] = Inr False"
    using unloaded_cache_throws[where 'l = unit, of 0 "[riverside]" plain_env None "[(''shop'', [])]"] 3
    by simp
  from 1 2 a b c show ?thesis by simp
qed

text \<open>
  C8 as stated fails: before the data are loaded both functions throw on
  \<open>{shop: convenience, name: Acme Riverside}\<close>.
\<close>

theorem unloaded_cache_counterexample:
  "upgradeTags (nsi_init :: unit nsi) plain_env [riverside] 0 None
     = ([riverside, riverside], Inl TypeError)
   \<and> isGenericName (nsi_init :: unit nsi) plain_env riverside = Inl TypeError"
  by code_simp

subsection \<open>Building the cache\<close>

lemma items_with_mainTag:
  "\<exists>acc'. foldE (itemStep tkv (Some mt)) items acc = Inr acc'"
proof (induction items arbitrary: acc)
  case Nil show ?case by simp
next
  case (Cons it items)
  obtain qids ids where acc: "acc = (qids, ids)" by (cases acc)
  obtain acc1 where "itemStep tkv (Some mt) it acc = Inr acc1"
    by (simp add: itemStep_def acc Let_def)
  with Cons.IH[of acc1] show ?case by simp
qed

lemma items_without_mainTag:
  "foldE (itemStep tkv None) items (qids, ids) =
     (case items of [] \<Rightarrow> Inr (qids, ids) | it # its \<Rightarrow> Inl TypeError)"
  by (cases items) (simp_all add: itemStep_def Let_def)

lemma update_middle:
  "k \<notin> fst ` set pre \<Longrightarrow> AList.update k v (pre @ (k, c) # rest) = pre @ (k, v) # rest"
  by (induction pre) auto

lemma map_of_middle:
  "k \<notin> fst ` set pre \<Longrightarrow> map_of (pre @ (k, c) # rest) k = Some c"
  by (induction pre) auto

lemma tkvStep_unfold:
  assumes "map_of data tkv = Some category"
  shows "tkvStep trees tkv (data, kvt, qids, ids) =
     (case treeMainTag trees (treeOf tkv) of
        None \<Rightarrow> Inl TypeError
      | Some mainTag \<Rightarrow>
          (case foldE (itemStep tkv mainTag)
                  (case cat_items category of None \<Rightarrow> [] | Some is \<Rightarrow> is) (qids, ids) of
             Inl e \<Rightarrow> Inl e
           | Inr (qids1, ids1) \<Rightarrow>
               Inr (AList.update tkv
                      (category\<lparr>cat_items :=
                         map_option (map (annotate tkv mainTag)) (cat_items category)\<rparr>) data,
                    AList.update (at_index (js_split CHR ''/'' 3 tkv) (Suc 0))
                      (AList.update (at_index (js_split CHR ''/'' 3 tkv) 2)
                         (at_index (js_split CHR ''/'' 3 tkv) 0)
                         (case map_of kvt (at_index (js_split CHR ''/'' 3 tkv) (Suc 0)) of
                            None \<Rightarrow> [] | Some existing \<Rightarrow> existing)) kvt,
                    qids1, ids1)))"
  using assms by (simp add: tkvStep_def treeOf_def Let_def split: option.splits)

lemma tkvStep_entry:
  assumes "tkv \<notin> fst ` set pre"
  shows "(treeFails trees (tkv, category) \<longrightarrow>
            tkvStep trees tkv (pre @ (tkv, category) # rest, kvt, qids, ids) = Inl TypeError)
         \<and> (\<not> treeFails trees (tkv, category) \<longrightarrow>
            (\<exists>kvt1 qids1 ids1.
               tkvStep trees tkv (pre @ (tkv, category) # rest, kvt, qids, ids)
                 = Inr (pre @ annotateCategory trees (tkv, category) # rest,
                        kvt1, qids1, ids1)))"
proof (cases "treeMainTag trees (treeOf tkv)")
  case None
  then show ?thesis
    by (simp add: tkvStep_unfold[OF map_of_middle[OF assms]] treeFails_def)
next
  case (Some mainTag)
  show ?thesis
  proof (cases mainTag)
    case mt: (Some mt)
    let ?items = "case cat_items category of None \<Rightarrow> [] | Some is \<Rightarrow> is"
    obtain acc' where "foldE (itemStep tkv (Some mt)) ?items (qids, ids) = Inr acc'"
      using items_with_mainTag by blast
    moreover obtain q i where "acc' = (q, i)" by (cases acc')
    ultimately show ?thesis using Some mt
      by (simp add: tkvStep_unfold[OF map_of_middle[OF assms]] treeFails_def
            update_middle[OF assms] annotateCategory_def mainTagOf_def)
  next
    case None
    with Some show ?thesis
      by (auto simp: tkvStep_unfold[OF map_of_middle[OF assms]] treeFails_def
            update_middle[OF assms] annotateCategory_def mainTagOf_def items_without_mainTag
            split: option.splits list.splits)
  qed
qed

lemma load_fold:
  "distinct (map fst (pre @ rest)) \<Longrightarrow>
   (list_ex (treeFails trees) rest \<longrightarrow>
      foldE (tkvStep trees) (map fst rest) (pre @ rest, kvt, qids, ids) = Inl TypeError)
   \<and> (\<not> list_ex (treeFails trees) rest \<longrightarrow>
      (\<exists>kvt1 qids1 ids1.
         foldE (tkvStep trees) (map fst rest) (pre @ rest, kvt, qids, ids)
           = Inr (pre @ map (annotateCategory trees) rest, kvt1, qids1, ids1)))"
proof (induction rest arbitrary: pre kvt qids ids)
  case Nil
  show ?case by simp
next
  case (Cons entry rest)
  obtain tkv category where e: "entry = (tkv, category)" by (cases entry)
  from Cons.prems e have fresh: "tkv \<notin> fst ` set pre" by auto
  note step = tkvStep_entry[OF fresh, of trees category rest kvt qids ids]
  show ?case
  proof (cases "treeFails trees (tkv, category)")
    case True
    with step show ?thesis by (simp add: e)
  next
    case False
    with step obtain kvt1 qids1 ids1 where
      s: "tkvStep trees tkv (pre @ (tkv, category) # rest, kvt, qids, ids)
            = Inr (pre @ annotateCategory trees (tkv, category) # rest, kvt1, qids1, ids1)"
      by blast
    let ?pre = "pre @ [annotateCategory trees (tkv, category)]"
    have k: "fst (annotateCategory trees (tkv, category)) = tkv"
      by (simp add: annotateCategory_def)
    from Cons.prems e k have "distinct (map fst (?pre @ rest))" by simp
    from Cons.IH[OF this, of kvt1 qids1 ids1] s False show ?thesis
      by (simp add: e)
  qed
qed

text \<open>
  C9 (as amended). For a dataset with distinct keys, the callback of \<open>loadNsiData\<close>
  throws a \<open>TypeError\<close>, and nothing else, exactly when some key has no tree (or has
  items while its tree is only an inherited member of the trees object); otherwise it
  returns the cache, in which every item of the dataset carries its \<open>tkv\<close> and
  \<open>mainTag\<close>. For a key whose first part is not an inherited name, having no tree means
  that the trees file does not define that part. The number of parts of a key plays no
  role.
\<close>

theorem loadNsiData_fails_on_unknown_tree:
  assumes "distinct (map fst data)"
  shows "(list_ex (treeFails trees) data \<longrightarrow>
            loadNsiData data dissolved replacements trees m = Inl TypeError)
         \<and> (\<not> list_ex (treeFails trees) data \<longrightarrow>
            (\<exists>kvt qids ids.
               loadNsiData data dissolved replacements trees m
                 = Inr \<lparr>nsi_data = Some (map (annotateCategory trees) data),
                        nsi_dissolved = Some dissolved,
                        nsi_replacements = Some replacements, nsi_trees = Some trees,
                        nsi_kvt = Some kvt, nsi_qids = Some qids, nsi_ids = Some ids,
                        nsi_matcher = Some m\<rparr>))
         \<and> (\<forall>tkv category. treeOf tkv \<notin> set inherited \<longrightarrow>
               treeFails trees (tkv, category) = (map_of trees (treeOf tkv) = None))"
proof (intro conjI allI impI)
  from assms have d: "distinct (map fst ([] @ data))" by simp
  note f = load_fold[OF d, of trees "[]" "[]" "[]"]
  show "loadNsiData data dissolved replacements trees m = Inl TypeError"
    if "list_ex (treeFails trees) data"
    using f that by (simp add: loadNsiData_def)
  show "\<exists>kvt qids ids.
               loadNsiData data dissolved replacements trees m
                 = Inr \<lparr>nsi_data = Some (map (annotateCategory trees) data),
                        nsi_dissolved = Some dissolved,
                        nsi_replacements = Some replacements, nsi_trees = Some trees,
                        nsi_kvt = Some kvt, nsi_qids = Some qids, nsi_ids = Some ids,
                        nsi_matcher = Some m\<rparr>"
    if "\<not> list_ex (treeFails trees) data"
    using f that by (auto simp: loadNsiData_def)
next
  fix tkv category assume "treeOf tkv \<notin> set inherited"
  then show "treeFails trees (tkv, category) = (map_of trees (treeOf tkv) = None)"
    by (auto simp: treeFails_def treeMainTag_def plain_get_def split: option.splits)
qed

lemma acme_load:
  "loadNsiData acme_data [''old-0''] [] acme_trees acme_match = Inr acme_nsi"
  by (simp add: acme_nsi_def loadNsiData_def acme_data_def tkvStep_def js_split_def
        at_index_def acme_trees_def itemStep_def old_item_def acme_item_def
        annotate_def treeMainTag_def plain_get_def)

theorem loadNsiData_fails_on_unknown_tree_witness:
  "distinct (map fst acme_data)
   \<and> \<not> list_ex (treeFails acme_trees) acme_data
   \<and> loadNsiData acme_data [''old-0''] [] acme_trees acme_match = Inr acme_nsi
   \<and> nsi_data acme_nsi = Some (map (annotateCategory acme_trees) acme_data)
   \<and> list_ex (treeFails []) acme_data
   \<and> loadNsiData acme_data [''old-0''] [] [] acme_match = Inl TypeError
   \<and> \<not> list_ex (treeFails acme_trees) ctor_tree_data
   \<and> (\<exists>nsi. loadNsiData ctor_tree_data [] [] acme_trees acme_match = Inr nsi)"
proof -
  have d: "distinct (map fst acme_data)" by code_simp
  have 1: "\<not> list_ex (treeFails acme_trees) acme_data" by code_simp
  have 2: "list_ex (treeFails []) acme_data" by code_simp
  have d3: "distinct (map fst ctor_tree_data)" by code_simp
  have 3: "\<not> list_ex (treeFails acme_trees) ctor_tree_data" by code_simp
  from loadNsiData_fails_on_unknown_tree[OF d, of acme_trees "[''old-0'']" "[]" acme_match] 1
  obtain kvt qids ids where
    "loadNsiData acme_data [''old-0''] [] acme_trees acme_match
       = Inr \<lparr>nsi_data = Some (map (annotateCategory acme_trees) acme_data),
              nsi_dissolved = Some [''old-0''],
              nsi_replacements = Some [], nsi_trees = Some acme_trees,
              nsi_kvt = Some kvt, nsi_qids = Some qids, nsi_ids = Some ids,
              nsi_matcher = Some acme_match\<rparr>" by blast
  then have "acme_nsi = \<lparr>nsi_data = Some (map (annotateCategory acme_trees) acme_data),
              nsi_dissolved = Some [''old-0''],
              nsi_replacements = Some [], nsi_trees = Some acme_trees,
              nsi_kvt = Some kvt, nsi_qids = Some qids, nsi_ids = Some ids,
              nsi_matcher = Some acme_match\<rparr>" by (simp add: acme_load)
  then have a: "nsi_data acme_nsi = Some (map (annotateCategory acme_trees) acme_data)"
    by (rule ssubst) simp
  from loadNsiData_fails_on_unknown_tree[OF d, of "[]" "[''old-0'']" "[]" acme_match] 2
  have b: "loadNsiData acme_data [''old-0''] [] [] acme_match = Inl TypeError" by blast
  from loadNsiData_fails_on_unknown_tree[OF d3, of acme_trees "[]" "[]" acme_match] 3
  have c: "\<exists>nsi. loadNsiData ctor_tree_data [] [] acme_trees acme_match = Inr nsi" by blast
  from d 1 2 3 a b c acme_load show ?thesis by simp
qed

text \<open>
  C9 as stated fails twice: the key \<open>brands/amenity\<close> has two parts only and the build
  succeeds, with \<open>undefined\<close> as a value of \<open>amenity\<close> in \<open>kvt\<close>; and the build is not
  pure, since after it the items of the dataset carry \<open>tkv\<close> and \<open>mainTag\<close>.
\<close>

theorem loadNsiData_short_key_counterexample:
  "js_split CHR ''/'' 3 ''brands/amenity'' = [''brands'', ''amenity'']
   \<and> loadNsiData short_data [] [] acme_trees acme_match
       = Inr \<lparr>nsi_data = Some short_data, nsi_dissolved = Some [],
              nsi_replacements = Some [], nsi_trees = Some acme_trees,
              nsi_kvt = Some [(Some ''amenity'', [(None, Some ''brands'')])],
              nsi_qids = Some [], nsi_ids = Some [], nsi_matcher = Some acme_match\<rparr>
   \<and> loadNsiData acme_data [''old-0''] [] acme_trees acme_match = Inr acme_nsi
   \<and> nsi_data acme_nsi = Some acme_loaded
   \<and> acme_loaded \<noteq> acme_data"
proof -
  have "acme_loaded \<noteq> acme_data"
    by (simp add: acme_loaded_def acme_data_def old_cached_def acme_cached_def annotate_def
          old_item_def acme_item_def)
  then show ?thesis
    by (simp add: acme_load acme_nsi_eq)
       (simp add: loadNsiData_def short_data_def tkvStep_def js_split_def at_index_def
          acme_trees_def treeMainTag_def plain_get_def)
qed

subsection \<open>Cross-reference tags\<close>

lemma map_of_obj_set:
  "map_of (obj_set obj k v) k' = (if k' = k then Some v else map_of obj k')"
  by (simp add: obj_set_def update_conv')

lemma obj_assign_origin_aux:
  "map_of (fold (\<lambda>(k, v) t. obj_set t k v) src target) k = Some v \<Longrightarrow>
     (k, v) \<in> set src \<or> map_of target k = Some v"
proof (induction src arbitrary: target)
  case Nil then show ?case by simp
next
  case (Cons p src)
  obtain k' v' where p: "p = (k', v')" by (cases p)
  from Cons.prems have "map_of (fold (\<lambda>(k, v) t. obj_set t k v) src (obj_set target k' v')) k = Some v"
    by (simp add: p)
  from Cons.IH[OF this] show ?case
    by (auto simp: p map_of_obj_set split: if_splits)
qed

lemma obj_assign_origin:
  "obj_get (obj_assign target src) k = Some v \<Longrightarrow>
     (k, v) \<in> set src \<or> obj_get target k = Some v"
  unfolding obj_get_def obj_assign_def by (rule obj_assign_origin_aux)

lemma in_obj_set:
  "(k, v) \<in> set (obj_set obj k' v') \<Longrightarrow> (k = k' \<and> v = v') \<or> (k, v) \<in> set obj"
  unfolding obj_set_def by (induction obj) (auto split: if_splits)

lemma keepTags_fold_origin:
  "(k, v) \<in> set (fold (\<lambda>osmkey keepTags.
             if list_ex (\<lambda>regex. regex osmkey) regexes
             then (case obj_get newTags osmkey of
                     None \<Rightarrow> keepTags
                   | Some v \<Rightarrow> obj_set keepTags osmkey v)
             else keepTags) ks acc) \<Longrightarrow>
   (k, v) \<in> set acc \<or> (list_ex (\<lambda>regex. regex k) regexes \<and> obj_get newTags k = Some v)"
proof (induction ks arbitrary: acc)
  case Nil then show ?case by simp
next
  case (Cons osmkey ks)
  let ?acc = "if list_ex (\<lambda>regex. regex osmkey) regexes
             then (case obj_get newTags osmkey of
                     None \<Rightarrow> acc
                   | Some v \<Rightarrow> obj_set acc osmkey v)
             else acc"
  from Cons.prems Cons.IH[of ?acc]
  have "(k, v) \<in> set ?acc \<or> (list_ex (\<lambda>regex. regex k) regexes \<and> obj_get newTags k = Some v)"
    by simp
  moreover have "(k, v) \<in> set ?acc \<Longrightarrow>
      (k, v) \<in> set acc \<or> (list_ex (\<lambda>regex. regex k) regexes \<and> obj_get newTags k = Some v)"
    by (auto split: if_splits option.splits dest!: in_obj_set)
  ultimately show ?case by blast
qed

lemma keepTagsOf_origin:
  "(k, v) \<in> set (keepTagsOf regexes newTags) \<Longrightarrow>
     list_ex (\<lambda>regex. regex k) regexes \<and> obj_get newTags k = Some v"
  unfolding keepTagsOf_def using keepTags_fold_origin[of k v regexes newTags "map fst newTags" "[]"]
  by simp

lemma obj_get_delete: "obj_get (obj_delete obj k) k' = (if k' = k then None else obj_get obj k')"
  by (simp add: obj_get_def obj_delete_def delete_conv')

lemma those_map_Some:
  "those (map f xs) = Some ys \<Longrightarrow> g \<in> set ys \<Longrightarrow> \<exists>x \<in> set xs. f x = Some g"
proof (induction xs arbitrary: ys)
  case Nil then show ?case by simp
next
  case (Cons x xs)
  then show ?case by (auto split: option.splits)
qed


lemma splitBranch_other_key:
  assumes "k \<noteq> ''branch''"
  shows "obj_get (splitBranch newTags origName) k = obj_get newTags k"
  using assms
  by (simp add: splitBranch_def Let_def obj_get_def map_of_obj_set split: option.splits)

lemma builtin_regexes:
  "\<not> rx_full True (RStr ''building'') ''wikidata''"
  "\<not> rx_full True (RStr ''takeaway'') ''wikidata''"
  "\<not> rx_full True (RStr ''building'') ''wikipedia''"
  "\<not> rx_full True (RStr ''takeaway'') ''wikipedia''"
  by code_simp+

lemma mergeItem_wiki_origin:
  assumes "truthy foundQID" and "mergeItem nsi ev it foundQID newTags = Inr merged"
    and "k = ''wikidata'' \<or> k = ''wikipedia''" and "obj_get merged k = Some v"
  shows "(k, v) \<in> set (item_tags it) \<or> (preserved nsi ev it k \<and> obj_get newTags k = Some v)"
proof -
  from assms(2) obtain data properties compiled kvt where
    d: "nsi_data nsi = Some data"
    and c: "categoryProperties data (key_of (item_tkv it)) = Some properties"
    and r: "those (map (regexp_i ev) (preserveTagsOf nsi it)) = Some compiled"
    and kv: "nsi_kvt nsi = Some kvt"
    by (auto simp: mergeItem_def preserveTagsOf_def Let_def split: option.splits)
  let ?regexes = "compiled @ [rx_full True (RStr ''building''), rx_full True (RStr ''takeaway'')]"
  let ?keep = "keepTagsOf ?regexes newTags"
  let ?t1 = "fold (\<lambda>(k, v) t. obj_delete t (key_of k)) kvt newTags"
  let ?t2 = "obj_delete (obj_delete ?t1 ''wikipedia'') ''wikidata''"
  from assms(1,2) d c r kv
  have m: "merged = obj_assign (obj_assign ?t2 (item_tags it)) ?keep"
    by (auto simp: mergeItem_def preserveTagsOf_def Let_def split: option.splits)
  from assms(3) have gone: "obj_get ?t2 k = None" by (auto simp: obj_get_delete)
  from assms(4) m obj_assign_origin[of "obj_assign ?t2 (item_tags it)" ?keep k v]
  consider (keep) "(k, v) \<in> set ?keep" | (below) "obj_get (obj_assign ?t2 (item_tags it)) k = Some v"
    by blast
  then show ?thesis
  proof cases
    case keep
    from keepTagsOf_origin[OF keep]
    have ex: "list_ex (\<lambda>regex. regex k) ?regexes" and nv: "obj_get newTags k = Some v" by simp_all
    from ex assms(3) builtin_regexes obtain g where g: "g \<in> set compiled" "g k"
      by (auto simp: list_ex_iff)
    from those_map_Some[OF r g(1)] obtain s where
      "s \<in> set (preserveTagsOf nsi it)" "regexp_i ev s = Some g" by blast
    with g(2) have "preserved nsi ev it k"
      unfolding preserved_def list_ex_iff by (intro bexI[of _ s]) simp_all
    with nv show ?thesis by simp
  next
    case below
    from obj_assign_origin[OF below] gone show ?thesis by simp
  qed
qed


lemma findQID_resolves:
  assumes "nsi_qids nsi = Some qids" and "q \<noteq> []"
    and "(\<exists>w. obj_get tags ''wikidata'' = Some w \<and> map_of qids w = Some q)
         \<or> (\<not> truthy (qidsGet qids (obj_get tags ''wikidata''))
             \<and> (\<exists>w. obj_get tags ''wikipedia'' = Some w \<and> map_of qids w = Some q))"
  shows "findQID nsi tags = Inr (Some q)"
  using assms by (auto simp: findQID_def qidsGet_def Let_def)

lemma upgradeTags_selected:
  assumes "ref < length h"
    and "foldE (replaceStep nsi) (map fst (obj_assign [] (h ! ref)))
           (obj_assign [] (h ! ref), False) = Inr (replaced, changed)"
    and "gatherKVs nsi ev (h ! ref) = Inr tryKVs"
    and "primary tryKVs \<noteq> [] \<or> alternate tryKVs \<noteq> []"
    and "findQID nsi (h ! ref) = Inr foundQID"
    and "primary (withQID (gatherNames (h ! ref)) foundQID) \<noteq> []
         \<or> alternate (withQID (gatherNames (h ! ref)) foundQID) \<noteq> []"
    and "tuplesLoop nsi replaced loc
           (gatherTuples tryKVs (withQID (gatherNames (h ! ref)) foundQID)) = Inr (Some it)"
    and "mergeItem nsi ev it foundQID replaced = Inr merged"
  shows "upgradeTags nsi ev h ref loc
           = (h @ [splitBranch merged (obj_get (h ! ref) ''name'')], Inr (Some (length h)))"
proof -
  have rd: "\<And>x. (h @ [x]) ! ref = h ! ref" using assms(1) by (simp add: nth_append)
  from assms(4) have kv: "(primary tryKVs = [] \<and> alternate tryKVs = []) = False" by simp
  from assms(6) have nm: "(primary (withQID (gatherNames (h ! ref)) foundQID) = []
         \<and> alternate (withQID (gatherNames (h ! ref)) foundQID) = []) = False" by simp
  show ?thesis
    using assms(1,2,3,5,7,8)
    by (simp add: upgradeTags_def Let_def rd kv nm)
qed

lemma withQID_primary: "truthy foundQID \<Longrightarrow> key_of foundQID \<in> set (primary (withQID ns foundQID))"
  by (simp add: withQID_def set_set_add)

lemma tuples_by_name:
  "gatherTuples tryKVs tryNames =
     concat (map (tuplesFor tryKVs) (primary tryNames))
     @ concat (map (tuplesFor tryKVs) (alternate tryNames))"
proof -
  have "gatherTuples tryKVs tryNames =
          fold (\<lambda>whichName tuples.
                  tuples @ concat (map (tuplesFor tryKVs) (pick whichName tryNames)))
            [Primary, Alternate] []"
    unfolding gatherTuples_def name_loop ..
  then show ?thesis by (simp add: pick_def)
qed

lemma qid_only_tuples:
  "gatherTuples tryKVs (withQID no_candidates (Some q)) =
     (if q = [] then [] else tuplesFor tryKVs q)"
  by (simp add: tuples_by_name withQID_def no_candidates_def set_add_def)

text \<open>
  C6 (as amended). When the \<open>wikidata\<close> value of the feature, or else its \<open>wikipedia\<close>
  value, is a key of \<open>qids\<close>, the value found there becomes a primary name; for a feature
  without names the tuples are then those of that value alone. When an item is selected
  on that run, \<open>wikidata\<close> and \<open>wikipedia\<close> are deleted from the copy before the item's
  tags and the preserved tags are merged: the result has such a tag only with the item's
  own value, or, where a preserve pattern matches the key, with the value that the copy
  held for it after the replacements of the first step (\<open>replaced\<close>).
\<close>

theorem crossref_name_and_cleanup:
  assumes "ref < length h"
    and "foldE (replaceStep nsi) (map fst (obj_assign [] (h ! ref)))
           (obj_assign [] (h ! ref), False) = Inr (replaced, changed)"
    and "gatherKVs nsi ev (h ! ref) = Inr tryKVs"
    and "primary tryKVs \<noteq> [] \<or> alternate tryKVs \<noteq> []"
    and "nsi_qids nsi = Some qids" and "q \<noteq> []"
    and "(\<exists>w. obj_get (h ! ref) ''wikidata'' = Some w \<and> map_of qids w = Some q)
         \<or> (\<not> truthy (qidsGet qids (obj_get (h ! ref) ''wikidata''))
             \<and> (\<exists>w. obj_get (h ! ref) ''wikipedia'' = Some w \<and> map_of qids w = Some q))"
    and "tuplesLoop nsi replaced loc
           (gatherTuples tryKVs (withQID (gatherNames (h ! ref)) (Some q))) = Inr (Some it)"
    and "mergeItem nsi ev it (Some q) replaced = Inr merged"
  shows "findQID nsi (h ! ref) = Inr (Some q)
         \<and> q \<in> set (primary (withQID (gatherNames (h ! ref)) (Some q)))
         \<and> (gatherNames (h ! ref) = no_candidates \<longrightarrow>
              gatherTuples tryKVs (withQID (gatherNames (h ! ref)) (Some q))
                = tuplesFor tryKVs q)
         \<and> (\<exists>result.
               upgradeTags nsi ev h ref loc = (h @ [result], Inr (Some (length h)))
               \<and> (\<forall>k v. (k = ''wikidata'' \<or> k = ''wikipedia'') \<and> obj_get result k = Some v
                      \<longrightarrow> (k, v) \<in> set (item_tags it)
                          \<or> (preserved nsi ev it k \<and> obj_get replaced k = Some v)))"
proof (intro conjI)
  show f: "findQID nsi (h ! ref) = Inr (Some q)"
    by (rule findQID_resolves[OF assms(5,6,7)])
  have t: "truthy (Some q)" using assms(6) by simp
  from withQID_primary[OF t] show p: "q \<in> set (primary (withQID (gatherNames (h ! ref)) (Some q)))"
    by simp
  show "gatherNames (h ! ref) = no_candidates \<longrightarrow>
              gatherTuples tryKVs (withQID (gatherNames (h ! ref)) (Some q))
                = tuplesFor tryKVs q"
    using assms(6) by (simp add: qid_only_tuples)
  from p have ne: "primary (withQID (gatherNames (h ! ref)) (Some q)) \<noteq> []
         \<or> alternate (withQID (gatherNames (h ! ref)) (Some q)) \<noteq> []" by auto
  let ?result = "splitBranch merged (obj_get (h ! ref) ''name'')"
  have u: "upgradeTags nsi ev h ref loc = (h @ [?result], Inr (Some (length h)))"
    by (rule upgradeTags_selected[OF assms(1,2,3,4) f ne assms(8,9)])
  have "\<forall>k v. (k = ''wikidata'' \<or> k = ''wikipedia'') \<and> obj_get ?result k = Some v
                      \<longrightarrow> (k, v) \<in> set (item_tags it)
                          \<or> (preserved nsi ev it k \<and> obj_get replaced k = Some v)"
  proof (intro allI impI)
    fix k v
    assume a: "(k = ''wikidata'' \<or> k = ''wikipedia'') \<and> obj_get ?result k = Some v"
    then have "k \<noteq> ''branch''" by auto
    from splitBranch_other_key[OF this] a have "obj_get merged k = Some v" by simp
    from mergeItem_wiki_origin[OF t assms(9) _ this] a
    show "(k, v) \<in> set (item_tags it)
            \<or> (preserved nsi ev it k \<and> obj_get replaced k = Some v)" by blast
  qed
  with u show "\<exists>result.
               upgradeTags nsi ev h ref loc = (h @ [result], Inr (Some (length h)))
               \<and> (\<forall>k v. (k = ''wikidata'' \<or> k = ''wikipedia'') \<and> obj_get result k = Some v
                      \<longrightarrow> (k, v) \<in> set (item_tags it)
                          \<or> (preserved nsi ev it k \<and> obj_get replaced k = Some v))"
    by blast
qed

text \<open>
  C6 as stated fails: the item asks to preserve \<open>^wikidata$\<close>, and the upgraded tags still
  carry the feature's \<open>wikidata\<close> tag.
\<close>

theorem crossref_preserved_counterexample:
  "findQID keeper_nsi qid_only = Inr (Some ''Q1'')
   \<and> gatherNames qid_only = no_candidates
   \<and> upgradeTags keeper_nsi keeper_env [qid_only] 0 None
       = ([qid_only,
           [(''brand'', ''Acme''), (''brand:wikidata'', ''Q1''),
            (''brand:wikipedia'', ''en:Acme''), (''name'', ''Acme''),
            (''shop'', ''convenience''), (''wikidata'', ''Q1'')]],
          Inr (Some 1))"
  by code_simp

lemma acme_qid_only_upgrade:
  "upgradeTags acme_nsi plain_env [qid_only] 0 None
       = ([qid_only,
           [(''brand'', ''Acme''), (''brand:wikidata'', ''Q1''),
            (''brand:wikipedia'', ''en:Acme''), (''name'', ''Acme''),
            (''shop'', ''convenience'')]],
          Inr (Some 1))"
  by code_simp

theorem crossref_name_and_cleanup_witness:
  "(0::nat) < length [qid_only]
   \<and> gatherKVs acme_nsi plain_env qid_only
       = Inr \<lparr>primary = [''shop/convenience''], alternate = []\<rparr>
   \<and> nsi_qids acme_nsi = Some [(''Q0'', ''Q0''), (''Q1'', ''Q1''), (''en:Acme'', ''Q1'')]
   \<and> obj_get qid_only ''wikidata'' = Some ''Q1''
   \<and> gatherNames qid_only = no_candidates
   \<and> findQID acme_nsi qid_only = Inr (Some ''Q1'')
   \<and> gatherTuples \<lparr>primary = [''shop/convenience''], alternate = []\<rparr>
        (withQID (gatherNames qid_only) (Some ''Q1''))
       = [\<lparr>tuple_k = Some ''shop'', tuple_v = Some ''convenience'', tuple_n = ''Q1''\<rparr>]
   \<and> upgradeTags acme_nsi plain_env [qid_only] 0 None
       = ([qid_only,
           [(''brand'', ''Acme''), (''brand:wikidata'', ''Q1''),
            (''brand:wikipedia'', ''en:Acme''), (''name'', ''Acme''),
            (''shop'', ''convenience'')]],
          Inr (Some 1))"
proof -
  let ?kvs = "\<lparr>primary = [''shop/convenience''], alternate = []\<rparr>"
  let ?qids = "[(''Q0'', ''Q0''), (''Q1'', ''Q1''), (''en:Acme'', ''Q1'')]"
  let ?merged = "[(''brand'', ''Acme''), (''brand:wikidata'', ''Q1''),
            (''brand:wikipedia'', ''en:Acme''), (''name'', ''Acme''),
            (''shop'', ''convenience'')]"
  have 1: "(0::nat) < length [qid_only]" by simp
  have 2: "foldE (replaceStep acme_nsi) (map fst (obj_assign [] ([qid_only] ! 0)))
           (obj_assign [] ([qid_only] ! 0), False) = Inr (qid_only, False)" by code_simp
  have 3: "gatherKVs acme_nsi plain_env ([qid_only] ! 0) = Inr ?kvs" by code_simp
  have 4: "primary ?kvs \<noteq> [] \<or> alternate ?kvs \<noteq> []" by simp
  have 5: "nsi_qids acme_nsi = Some ?qids" by (simp add: acme_nsi_eq)
  have 6: "''Q1'' \<noteq> []" by simp
  have w: "obj_get qid_only ''wikidata'' = Some ''Q1''" by code_simp
  have 7: "(\<exists>w. obj_get ([qid_only] ! 0) ''wikidata'' = Some w \<and> map_of ?qids w = Some ''Q1'')
         \<or> (\<not> truthy (qidsGet ?qids (obj_get ([qid_only] ! 0) ''wikidata''))
             \<and> (\<exists>w. obj_get ([qid_only] ! 0) ''wikipedia'' = Some w \<and> map_of ?qids w = Some ''Q1''))"
    using w by simp
  have 8: "tuplesLoop acme_nsi qid_only None
           (gatherTuples ?kvs (withQID (gatherNames ([qid_only] ! 0)) (Some ''Q1''))) = Inr (Some acme_cached)"
    by code_simp
  have 9: "mergeItem acme_nsi plain_env acme_cached (Some ''Q1'') qid_only = Inr ?merged"
    by code_simp
  have g: "gatherNames qid_only = no_candidates" by code_simp
  have t: "tuplesFor ?kvs ''Q1'' = [\<lparr>tuple_k = Some ''shop'', tuple_v = Some ''convenience'', tuple_n = ''Q1''\<rparr>]"
    by code_simp
  from crossref_name_and_cleanup[OF 1 2 3 4 5 6 7 8 9] g t
  have "findQID acme_nsi qid_only = Inr (Some ''Q1'')"
    and "gatherTuples ?kvs (withQID (gatherNames qid_only) (Some ''Q1''))
       = [\<lparr>tuple_k = Some ''shop'', tuple_v = Some ''convenience'', tuple_n = ''Q1''\<rparr>]"
    by simp_all
  with 1 3 5 w g acme_qid_only_upgrade show ?thesis by simp
qed

end
